theory Spec2Isabelle
  imports Complex_Main "HOL-Library.Word"
begin

section \<open>JavaScript values used by the audio route\<close>

text \<open>
  The server route (\<^verbatim>\<open>POST\<close> and \<^verbatim>\<open>generateAudioWAV\<close>) and the client helpers
  (\<^verbatim>\<open>estimateDuration\<close>, \<^verbatim>\<open>createPlaceholderAudioFile\<close>) are embedded as HOL functions.

  \<^item> A JavaScript string is a sequence of UTF-16 code units: \<open>16 word list\<close>.
  \<^item> A JavaScript Number is an IEEE-754 double. The two computations whose result is an
    integer that decides what is emitted, the duration and the character index, are carried
    out as the source does: the result of every operation is rounded to the nearest double
    (\<open>fl\<close>, ties to even). The waveform arithmetic (sines, envelope, scaling) is over the
    reals, and infinities and NaN are not modelled. The only place where the source can
    produce NaN on a request that passed validation is \<^verbatim>\<open>charCodeAt(0)\<close> of the empty
    string returned by an out-of-range \<^verbatim>\<open>charAt\<close>; that branch is written out in
    \<open>sample_value\<close>. Numbers that hold integers in the source (\<^verbatim>\<open>duration\<close>,
    \<^verbatim>\<open>numSamples\<close>, \<^verbatim>\<open>fileSize\<close>, \<^verbatim>\<open>intSample\<close>) are \<open>int\<close>.
  \<^item> \<^verbatim>\<open>Math.random()\<close> is a stateful source of numbers; it is passed and returned explicitly.
  \<^item> The \<^verbatim>\<open>ArrayBuffer\<close> is a list of bytes; \<^verbatim>\<open>DataView\<close> writes out of range raise
    \<^verbatim>\<open>RangeError\<close>, which is a value of the result type here. The engine's limit on the
    size of an \<^verbatim>\<open>ArrayBuffer\<close> is not modelled.
  \<^item> Of the HTTP response only the status and the body are kept.
\<close>

type_synonym jschar = "16 word"
type_synonym jsstring = "jschar list"
type_synonym byte = "8 word"
type_synonym buffer = "byte list"

text \<open>ASCII literals: the code units of an ASCII string.\<close>

definition js :: "string \<Rightarrow> jsstring" where
  "js s = map of_char s"

text \<open>
  The characters matched by \<^verbatim>\<open>\s\<close> in a regular expression and stripped by
  \<^verbatim>\<open>String.prototype.trim\<close>: WhiteSpace and LineTerminator of ECMAScript.
\<close>

definition is_ws :: "jschar \<Rightarrow> bool" where
  "is_ws c \<longleftrightarrow>
     (0x09 \<le> c \<and> c \<le> 0x0D) \<or> c = 0x20 \<or> c = 0xA0 \<or> c = 0x1680 \<or>
     (0x2000 \<le> c \<and> c \<le> 0x200A) \<or> c = 0x2028 \<or> c = 0x2029 \<or> c = 0x202F \<or>
     c = 0x205F \<or> c = 0x3000 \<or> c = 0xFEFF"

definition trim :: "jsstring \<Rightarrow> jsstring" where
  "trim s = rev (dropWhile is_ws (rev (dropWhile is_ws s)))"

text \<open>
  \<^verbatim>\<open>s.split(/\s+/)\<close>: the pieces of \<open>s\<close> between maximal runs of whitespace. A run at
  the start or at the end of \<open>s\<close> leaves an empty piece there, and the empty string gives one
  empty piece.
\<close>

function split_whitespace :: "jsstring \<Rightarrow> jsstring list" where
  "split_whitespace [] = [[]]"
| "split_whitespace (c # cs) =
     (if is_ws c then [] # split_whitespace (dropWhile is_ws cs)
      else (case split_whitespace cs of
              [] \<Rightarrow> [[c]]
            | w # ws \<Rightarrow> (c # w) # ws))"
  by pat_completeness auto
termination
  by (relation "measure length") (auto simp: less_Suc_eq_le length_dropWhile_le)

text \<open>
  \<^verbatim>\<open>s.charAt(k)\<close> returns the empty string when \<open>k\<close> is out of range; \<open>None\<close> stands
  for that empty string.
\<close>

definition charAt :: "jsstring \<Rightarrow> int \<Rightarrow> jschar option" where
  "charAt s k = (if 0 \<le> k \<and> k < int (length s) then Some (s ! nat k) else None)"

text \<open>\<^verbatim>\<open>Math.round\<close> rounds to the nearest integer, ties towards \<open>+\<infinity>\<close>.\<close>

definition Math_round :: "real \<Rightarrow> int" where
  "Math_round x = \<lfloor>x + 1 / 2\<rfloor>"

text \<open>
  Rounding to double precision. \<open>round_even\<close> rounds to the nearest integer, ties to the
  even one; \<open>fl x\<close> is the number with a 53-bit significand nearest to \<open>x\<close>: with
  \<open>2 ^ k \<le> |x| < 2 ^ (k + 1)\<close> it is the nearest multiple of \<open>2 ^ (k - 52)\<close>. The
  exponent is not bounded: overflow and subnormal numbers do not arise where \<open>fl\<close> is
  used (rates in \<open>[0.1, 10]\<close>, at most 2500 words, at most \<open>2 ^ 30\<close> samples).
  A double operation of the source is \<open>fl\<close> of the exact result.
\<close>

definition round_even :: "real \<Rightarrow> int" where
  "round_even q =
     (let f = \<lfloor>q\<rfloor>
      in if q - real_of_int f < 1 / 2 then f
         else if q - real_of_int f > 1 / 2 then f + 1
         else if even f then f else f + 1)"

definition fl :: "real \<Rightarrow> real" where
  "fl x =
     (let e = \<lfloor>log 2 \<bar>x\<bar>\<rfloor> - 52
      in real_of_int (round_even (x / 2 powi e)) * 2 powi e)"

text \<open>
  The state of \<^verbatim>\<open>Math.random()\<close>: the numbers it will return, in order. A call returns
  the first and leaves the rest.
\<close>

type_synonym rng = "nat \<Rightarrow> real"

definition Math_random :: "rng \<Rightarrow> real \<times> rng" where
  "Math_random g = (g 0, \<lambda>n. g (Suc n))"

text \<open>\<^verbatim>\<open>Math.random()\<close> returns a number in \<open>[0, 1)\<close>.\<close>

definition rng_ok :: "rng \<Rightarrow> bool" where
  "rng_ok g \<longleftrightarrow> (\<forall>n. 0 \<le> g n \<and> g n < 1)"

section \<open>The byte buffer and its \<^verbatim>\<open>DataView\<close>\<close>

datatype js_error = RangeError

definition bind_err :: "js_error + 'a \<Rightarrow> ('a \<Rightarrow> js_error + 'b) \<Rightarrow> js_error + 'b" where
  "bind_err m f = (case m of Inl e \<Rightarrow> Inl e | Inr x \<Rightarrow> f x)"

text \<open>
  The setters store the value modulo \<open>2 ^ 8\<close>, \<open>2 ^ 16\<close>, \<open>2 ^ 32\<close> (two's complement for
  a negative one), little-endian as the source asks (\<^verbatim>\<open>true\<close>), and raise
  \<^verbatim>\<open>RangeError\<close> when the bytes do not fit in the buffer.
\<close>

definition setUint8 :: "buffer \<Rightarrow> nat \<Rightarrow> int \<Rightarrow> js_error + buffer" where
  "setUint8 view off v =
     (if off + 1 \<le> length view then Inr (view[off := word_of_int v]) else Inl RangeError)"

definition setUint16 :: "buffer \<Rightarrow> nat \<Rightarrow> int \<Rightarrow> js_error + buffer" where
  "setUint16 view off v =
     (if off + 2 \<le> length view
      then Inr (view[off := word_of_int v, off + 1 := word_of_int (v div 256)])
      else Inl RangeError)"

definition setInt16 :: "buffer \<Rightarrow> nat \<Rightarrow> int \<Rightarrow> js_error + buffer" where
  "setInt16 view off v =
     (if off + 2 \<le> length view
      then Inr (view[off := word_of_int v, off + 1 := word_of_int (v div 256)])
      else Inl RangeError)"

definition setUint32 :: "buffer \<Rightarrow> nat \<Rightarrow> int \<Rightarrow> js_error + buffer" where
  "setUint32 view off v =
     (if off + 4 \<le> length view
      then Inr (view[off := word_of_int v, off + 1 := word_of_int (v div 256),
                     off + 2 := word_of_int (v div 65536),
                     off + 3 := word_of_int (v div 16777216)])
      else Inl RangeError)"

text \<open>The readers a decoder of the container uses (little-endian).\<close>

definition getUint32 :: "buffer \<Rightarrow> nat \<Rightarrow> int" where
  "getUint32 view off =
     uint (view ! off) + 256 * uint (view ! (off + 1)) + 65536 * uint (view ! (off + 2))
       + 16777216 * uint (view ! (off + 3))"

definition getUint16 :: "buffer \<Rightarrow> nat \<Rightarrow> int" where
  "getUint16 view off = uint (view ! off) + 256 * uint (view ! (off + 1))"

definition getInt16 :: "buffer \<Rightarrow> nat \<Rightarrow> int" where
  "getInt16 view off =
     (let u = getUint16 view off in if u < 32768 then u else u - 65536)"

section \<open>\<^verbatim>\<open>generateAudioWAV\<close>\<close>

record AudioSettings =
  rate :: real
  pitch :: real
  volume :: real
  voiceName :: "jsstring option"

definition sampleRate :: int where "sampleRate = 44100"
definition numChannels :: int where "numChannels = 1"
definition bitsPerSample :: int where "bitsPerSample = 16"
definition baseFreq :: real where "baseFreq = 200"

definition wordCount :: "jsstring \<Rightarrow> nat" where
  "wordCount txt = length (filter (\<lambda>word. length word > 0) (split_whitespace txt))"

definition duration :: "jsstring \<Rightarrow> real \<Rightarrow> int" where
  "duration txt r =
     (let wordsPerMinute = fl (155 * r);
          baseDuration = max 2 (fl (fl (real (wordCount txt) / wordsPerMinute) * 60))
      in \<lceil>baseDuration\<rceil>)"

fun writeString :: "buffer \<Rightarrow> nat \<Rightarrow> jsstring \<Rightarrow> js_error + buffer" where
  "writeString view off [] = Inr view"
| "writeString view off (c # cs) =
     bind_err (setUint8 view off (uint c)) (\<lambda>view'. writeString view' (off + 1) cs)"

definition write_header :: "buffer \<Rightarrow> int \<Rightarrow> int \<Rightarrow> js_error + buffer" where
  "write_header view0 fileSize dataSize =
     bind_err (writeString view0 0 (js ''RIFF'')) (\<lambda>view.
     bind_err (setUint32 view 4 (fileSize - 8)) (\<lambda>view.
     bind_err (writeString view 8 (js ''WAVE'')) (\<lambda>view.
     bind_err (writeString view 12 (js ''fmt '')) (\<lambda>view.
     bind_err (setUint32 view 16 16) (\<lambda>view.
     bind_err (setUint16 view 20 1) (\<lambda>view.
     bind_err (setUint16 view 22 numChannels) (\<lambda>view.
     bind_err (setUint32 view 24 sampleRate) (\<lambda>view.
     bind_err (setUint32 view 28 (sampleRate * numChannels * (bitsPerSample div 8))) (\<lambda>view.
     bind_err (setUint16 view 32 (numChannels * (bitsPerSample div 8))) (\<lambda>view.
     bind_err (setUint16 view 34 bitsPerSample) (\<lambda>view.
     bind_err (writeString view 36 (js ''data'')) (\<lambda>view.
     setUint32 view 40 dataSize))))))))))))"

text \<open>
  The waveform of one character at one instant (the \<^verbatim>\<open>if\<close> on \<^verbatim>\<open>char\<close> in the loop):
  silence for the space character, three sine partials for a vowel, a sine plus noise
  otherwise. Only the last branch calls \<^verbatim>\<open>Math.random()\<close>.
\<close>

definition vowels :: jsstring where
  "vowels = js ''aeiouAEIOU''"

definition char_sample :: "jschar \<Rightarrow> real \<Rightarrow> real \<Rightarrow> rng \<Rightarrow> real \<times> rng" where
  "char_sample char p time g =
     (let charCode = unat char;
          isVowel = (char \<in> set vowels);
          baseCharFreq = baseFreq + real (charCode mod 300)
      in if char = 0x20 then (0, g)
         else if isVowel then
           (let freq1 = baseCharFreq * (1 + p * 0.5);
                freq2 = freq1 * 2.1;
                freq3 = freq1 * 3.2
            in (sin (2 * pi * freq1 * time) * 0.6 +
                sin (2 * pi * freq2 * time) * 0.3 +
                sin (2 * pi * freq3 * time) * 0.1, g))
         else
           (let freq = baseCharFreq * (1.5 + p * 0.8);
                (u, g') = Math_random g;
                noise = (u - 0.5) * 0.3
            in (sin (2 * pi * freq * time) * 0.7 + noise, g')))"

definition fadeTime :: "int \<Rightarrow> real" where
  "fadeTime d = min 0.1 (real_of_int d * 0.05)"

definition envelope :: "int \<Rightarrow> real \<Rightarrow> real" where
  "envelope d time =
     (if time < fadeTime d then time / fadeTime d
      else if time > real_of_int d - fadeTime d then (real_of_int d - time) / fadeTime d
      else 1)"

definition rateModulation :: "AudioSettings \<Rightarrow> real" where
  "rateModulation settings = 1 + (rate settings - 1) * 0.2"

text \<open>The sample after rate modulation, volume and envelope, before quantisation.\<close>

definition scale_sample :: "AudioSettings \<Rightarrow> int \<Rightarrow> real \<Rightarrow> real \<Rightarrow> real" where
  "scale_sample settings d time sample =
     sample * rateModulation settings * (volume settings * envelope d time * 0.3)"

definition intSample :: "real \<Rightarrow> int" where
  "intSample sample = max (- 32768) (min 32767 (Math_round (sample * 32767)))"

definition sample_time :: "nat \<Rightarrow> real" where
  "sample_time i = real i / real_of_int sampleRate"

definition charIndex :: "jsstring \<Rightarrow> int \<Rightarrow> nat \<Rightarrow> int" where
  "charIndex txt numSamples i =
     (let progress = fl (real i / real_of_int numSamples)
      in \<lfloor>fl (progress * real (length txt))\<rfloor>)"

text \<open>
  The body of the sample loop up to the store: the 16-bit value of sample \<open>i\<close> and the
  random source after it. When \<^verbatim>\<open>charAt\<close> is out of range the source computes with NaN
  (\<^verbatim>\<open>charCodeAt(0)\<close> of the empty string; the empty string is not \<^verbatim>\<open>' '\<close> and
  \<^verbatim>\<open>includes\<close> accepts it, so the vowel branch runs and no random number is drawn) and
  \<^verbatim>\<open>setInt16\<close> stores NaN as 0.
\<close>

definition sample_value ::
  "jsstring \<Rightarrow> AudioSettings \<Rightarrow> int \<Rightarrow> int \<Rightarrow> nat \<Rightarrow> rng \<Rightarrow> int \<times> rng" where
  "sample_value txt settings d numSamples i g =
     (let time = sample_time i
      in case charAt txt (charIndex txt numSamples i) of
           None \<Rightarrow> (0, g)
         | Some char \<Rightarrow>
             (let (sample, g') = char_sample char (pitch settings) time g
              in (intSample (scale_sample settings d time sample), g')))"

text \<open>One iteration: compute the value, store it at byte \<open>44 + 2 i\<close>.\<close>

definition sample_step ::
  "jsstring \<Rightarrow> AudioSettings \<Rightarrow> int \<Rightarrow> int \<Rightarrow> nat \<Rightarrow> buffer \<times> rng \<Rightarrow> js_error + buffer \<times> rng" where
  "sample_step txt settings d numSamples i st =
     (let (view, g) = st;
          (v, g') = sample_value txt settings d numSamples i g
      in bind_err (setInt16 view (44 + i * 2) v) (\<lambda>view'. Inr (view', g')))"

function sample_loop ::
  "jsstring \<Rightarrow> AudioSettings \<Rightarrow> int \<Rightarrow> int \<Rightarrow> nat \<Rightarrow> buffer \<times> rng \<Rightarrow> js_error + buffer \<times> rng" where
  "sample_loop txt settings d numSamples i st =
     (if int i < numSamples
      then bind_err (sample_step txt settings d numSamples i st)
             (\<lambda>st'. sample_loop txt settings d numSamples (Suc i) st')
      else Inr st)"
  by pat_completeness auto
termination
  by (relation "measure (\<lambda>(txt, settings, d, numSamples, i, st). nat (numSamples - int i))") auto

declare sample_loop.simps [simp del]

definition generateAudioWAV :: "jsstring \<Rightarrow> AudioSettings \<Rightarrow> rng \<Rightarrow> js_error + buffer \<times> rng" where
  "generateAudioWAV txt settings g =
     (let d = duration txt (rate settings);
          numSamples = sampleRate * d;
          dataSize = numSamples * numChannels * (bitsPerSample div 8);
          fileSize = 44 + dataSize;
          buffer = replicate (nat fileSize) 0
      in bind_err (write_header buffer fileSize dataSize)
           (\<lambda>view. sample_loop txt settings d numSamples 0 (view, g)))"

section \<open>The \<^verbatim>\<open>POST\<close> handler\<close>

text \<open>
  The parsed request body. The \<^verbatim>\<open>text\<close> field is any JSON value (or absent); the three
  voice parameters are a number or absent (the default \<open>1\<close> applies to an absent one).
\<close>

datatype jsvalue = JUndefined | JNull | JBool bool | JNumber real | JString jsstring | JObject

record request_body =
  body_text :: jsvalue
  body_rate :: "real option"
  body_pitch :: "real option"
  body_volume :: "real option"
  body_voiceName :: "jsstring option"

datatype response = JsonResponse string nat | AudioResponse buffer

fun falsy :: "jsvalue \<Rightarrow> bool" where
  "falsy JUndefined = True"
| "falsy JNull = True"
| "falsy (JBool b) = (\<not> b)"
| "falsy (JNumber x) = (x = 0)"
| "falsy (JString s) = (s = [])"
| "falsy JObject = False"

definition normalized_settings :: "request_body \<Rightarrow> AudioSettings" where
  "normalized_settings body =
     (let r = (case body_rate body of None \<Rightarrow> 1 | Some x \<Rightarrow> x);
          p = (case body_pitch body of None \<Rightarrow> 1 | Some x \<Rightarrow> x);
          v = (case body_volume body of None \<Rightarrow> 1 | Some x \<Rightarrow> x)
      in \<lparr> rate = max 0.1 (min 10 r), pitch = max 0 (min 2 p), volume = max 0 (min 1 v),
           voiceName = body_voiceName body \<rparr>)"

text \<open>
  The handler: the two validation \<^verbatim>\<open>if\<close>s, then synthesis inside \<^verbatim>\<open>try\<close>; an
  exception becomes the 500 response. A value that is not a string fails
  \<^verbatim>\<open>typeof text !== 'string'\<close>, so \<^verbatim>\<open>trim\<close> is only applied to strings.
\<close>

definition POST :: "request_body \<Rightarrow> rng \<Rightarrow> response \<times> rng" where
  "POST body g =
     (case body_text body of
        JString s \<Rightarrow>
          if falsy (JString s) \<or> length (trim s) = 0
          then (JsonResponse ''Text is required and must be a non-empty string'' 400, g)
          else if length s > 5000
          then (JsonResponse ''Text must be less than 5000 characters'' 400, g)
          else (case generateAudioWAV s (normalized_settings body) g of
                  Inl e \<Rightarrow> (JsonResponse ''Failed to generate audio file'' 500, g)
                | Inr (audioBuffer, g') \<Rightarrow> (AudioResponse audioBuffer, g'))
      | other \<Rightarrow> (JsonResponse ''Text is required and must be a non-empty string'' 400, g))"

section \<open>The client's duration (\<^verbatim>\<open>TextToSpeechApp.tsx\<close>)\<close>

definition estimateDuration :: "jsstring \<Rightarrow> real \<Rightarrow> real" where
  "estimateDuration txt r =
     (let wordsPerMinute = fl (155 * r);
          wordCount = length (split_whitespace txt)
      in fl (fl (real wordCount / wordsPerMinute) * 60))"

text \<open>The first line of \<^verbatim>\<open>createPlaceholderAudioFile\<close>.\<close>

definition placeholder_duration :: "jsstring \<Rightarrow> real \<Rightarrow> int" where
  "placeholder_duration txt r = max 1 \<lceil>estimateDuration txt r\<rceil>"

section \<open>Requests that pass validation\<close>

text \<open>
  What the two validation \<^verbatim>\<open>if\<close>s of \<^verbatim>\<open>POST\<close> let through, and what the three
  \<^verbatim>\<open>Math.max(.., Math.min(.., ..))\<close> lines guarantee.
\<close>

definition valid_text :: "jsstring \<Rightarrow> bool" where
  "valid_text txt \<longleftrightarrow> trim txt \<noteq> [] \<and> length txt \<le> 5000"

definition valid_settings :: "AudioSettings \<Rightarrow> bool" where
  "valid_settings s \<longleftrightarrow>
     0.1 \<le> rate s \<and> rate s \<le> 10 \<and> 0 \<le> pitch s \<and> pitch s \<le> 2 \<and>
     0 \<le> volume s \<and> volume s \<le> 1"

text \<open>
  The samples a decoder reads back from the container: the signed 16-bit values from byte 44
  on, two bytes each.
\<close>

definition samples_of :: "buffer \<Rightarrow> int list" where
  "samples_of view = map (\<lambda>i. getInt16 view (44 + 2 * i)) [0 ..< (length view - 44) div 2]"

text \<open>A random source that returns \<open>u\<close> at every call.\<close>

definition constant_rng :: "real \<Rightarrow> rng" where
  "constant_rng u = (\<lambda>n. u)"

text \<open>Settings and bodies used as examples.\<close>

definition neutral :: AudioSettings where
  "neutral = \<lparr> rate = 1, pitch = 1, volume = 1, voiceName = None \<rparr>"

definition hello_body :: request_body where
  "hello_body = \<lparr> body_text = JString (js ''Hello world''), body_rate = Some 1,
                   body_pitch = Some 1, body_volume = Some 1, body_voiceName = None \<rparr>"

definition extreme :: AudioSettings where
  "extreme = \<lparr> rate = 10, pitch = 2, volume = 1, voiceName = None \<rparr>"

definition extreme_body :: request_body where
  "extreme_body = \<lparr> body_text = JString (js ''Hello world''), body_rate = Some 10,
                     body_pitch = Some 2, body_volume = Some 1, body_voiceName = None \<rparr>"

text \<open>
  Settings for the one-character text "b" whose pitch puts the last sample of the two-second
  buffer on a crest of the consonant's sine: \<open>freq * time = 1000 + 1/4\<close> at
  \<open>time = 88199 / 44100\<close>.
\<close>

definition fade_out_settings :: AudioSettings where
  "fade_out_settings = \<lparr> rate = 10, pitch = 2928795 / 13141651, volume = 1, voiceName = None \<rparr>"

text \<open>The text "a a ... a" of \<open>n + 1\<close> one-letter words.\<close>

fun one_letter_words :: "nat \<Rightarrow> jsstring" where
  "one_letter_words 0 = [0x61]"
| "one_letter_words (Suc n) = 0x61 # 0x20 # one_letter_words n"

text \<open>A request body with the given \<^verbatim>\<open>text\<close> field and no other field.\<close>

definition body_of :: "jsvalue \<Rightarrow> request_body" where
  "body_of t = \<lparr> body_text = t, body_rate = None, body_pitch = None, body_volume = None,
                 body_voiceName = None \<rparr>"

section \<open>Words and duration\<close>

lemma wc_hello: "wordCount (js ''Hello world'') = 2"
  by (simp add: js_def wordCount_def is_ws_def)

lemma valid_hello: "valid_text (js ''Hello world'')"
  by (simp add: valid_text_def trim_def js_def is_ws_def)

lemma split_whitespace_nonempty: "split_whitespace s \<noteq> []"
  by (induction s rule: split_whitespace.induct) (auto split: list.splits)

lemma wordCount_aux:
  "2 * wordCount s \<le> length s + (if hd (split_whitespace s) = [] then 0 else 1)"
proof (induction s rule: split_whitespace.induct)
  case 1
  then show ?case by (simp add: wordCount_def)
next
  case (2 c cs)
  show ?case
  proof (cases "is_ws c")
    case True
    have "length (dropWhile is_ws cs) \<le> length cs" by (rule length_dropWhile_le)
    with True 2(1) show ?thesis by (simp add: wordCount_def split: if_splits)
  next
    case False
    obtain w ws where sp: "split_whitespace cs = w # ws"
      using split_whitespace_nonempty [of cs] by (cases "split_whitespace cs") auto
    with False 2(2) show ?thesis by (simp add: wordCount_def split: if_splits)
  qed
qed

lemma wordCount_le: "2 * wordCount s \<le> length s + 1"
  using wordCount_aux [of s] by (simp split: if_splits)

lemma length_trim_le: "length (trim s) \<le> length s"
proof -
  have "length (trim s) = length (dropWhile is_ws (rev (dropWhile is_ws s)))"
    by (simp add: trim_def)
  also have "\<dots> \<le> length (rev (dropWhile is_ws s))" by (rule length_dropWhile_le)
  also have "\<dots> \<le> length s" by (simp add: length_dropWhile_le)
  finally show ?thesis .
qed

lemma ceil_max: "\<lceil>max 2 (x::real)\<rceil> = max 2 \<lceil>x\<rceil>"
proof (cases "2 \<le> x")
  case True
  then have "2 \<le> \<lceil>x\<rceil>" by (simp add: le_ceiling_iff)
  then have b: "max 2 \<lceil>x\<rceil> = \<lceil>x\<rceil>" by linarith
  from True have a: "max 2 x = x" by linarith
  show ?thesis by (simp only: a b)
next
  case False
  then have "\<lceil>x\<rceil> \<le> 2" using ceiling_le [of x 2] by simp
  then have b: "max 2 \<lceil>x\<rceil> = 2" by linarith
  from False have a: "max 2 x = 2" by linarith
  have c: "\<lceil>2::real\<rceil> = 2" by simp
  show ?thesis by (simp only: a b c)
qed

text \<open>Rounding: the relative error of \<open>fl\<close> is at most \<open>2 ^ -53\<close>.\<close>

lemma round_even_error: "\<bar>real_of_int (round_even q) - q\<bar> \<le> 1 / 2"
  unfolding round_even_def Let_def by (auto simp: abs_le_iff)

lemma fl_0: "fl 0 = 0"
  by (simp add: fl_def round_even_def)

lemma floor_log2_eq:
  assumes "2 powi k \<le> \<bar>x\<bar>" and "\<bar>x\<bar> < 2 powi (k + 1)"
  shows "\<lfloor>log 2 \<bar>x::real\<bar>\<rfloor> = k"
proof -
  have "(0::real) < 2 powi k" by simp
  with assms(1) have pos: "0 < \<bar>x\<bar>" by linarith
  have a: "(2::real) powr real_of_int k = 2 powi k" by (rule powr_real_of_int') simp_all
  have b: "(2::real) powr real_of_int (k + 1) = 2 powi (k + 1)"
    by (rule powr_real_of_int') simp_all
  show ?thesis
    using assms floor_log_eq_powr_iff [of "\<bar>x\<bar>" 2 k] pos unfolding a b by simp
qed

lemma fl_eq:
  assumes "2 powi k \<le> \<bar>x\<bar>" and "\<bar>x\<bar> < 2 powi (k + 1)"
  shows "fl x = real_of_int (round_even (x / 2 powi (k - 52))) * 2 powi (k - 52)"
  unfolding fl_def floor_log2_eq [OF assms] Let_def ..

lemma floor_log2_bound:
  assumes "x \<noteq> 0"
  shows "2 powi \<lfloor>log 2 \<bar>x::real\<bar>\<rfloor> \<le> \<bar>x\<bar>"
proof -
  from assms have pos: "0 < \<bar>x\<bar>" by simp
  have "(2::real) powr real_of_int \<lfloor>log 2 \<bar>x\<bar>\<rfloor> \<le> \<bar>x\<bar>"
    using floor_log_eq_powr_iff [of "\<bar>x\<bar>" 2 "\<lfloor>log 2 \<bar>x\<bar>\<rfloor>"] pos by simp
  moreover have "(2::real) powr real_of_int \<lfloor>log 2 \<bar>x\<bar>\<rfloor> = 2 powi \<lfloor>log 2 \<bar>x\<bar>\<rfloor>"
    by (rule powr_real_of_int') simp_all
  ultimately show ?thesis by simp
qed

lemma fl_error: "\<bar>fl x - x\<bar> \<le> \<bar>x\<bar> / 2 ^ 53"
proof (cases "x = 0")
  case True
  then show ?thesis by (simp add: fl_0)
next
  case False
  define k where "k = \<lfloor>log 2 \<bar>x\<bar>\<rfloor>"
  define p :: real where "p = 2 powi (k - 52)"
  define q where "q = x / p"
  have p0: "0 < p" by (simp add: p_def)
  have kx: "2 powi k \<le> \<bar>x\<bar>" unfolding k_def by (rule floor_log2_bound [OF False])
  have pk: "p = 2 powi k / 2 ^ 52"
    unfolding p_def by (simp add: power_int_diff)
  have f: "fl x = real_of_int (round_even q) * p"
    by (simp add: fl_def k_def p_def q_def Let_def)
  have x: "x = q * p" using p0 by (simp add: q_def)
  have "fl x - x = real_of_int (round_even q) * p - q * p"
    using f x by (simp only:)
  then have "fl x - x = (real_of_int (round_even q) - q) * p"
    by (simp only: left_diff_distrib)
  then have "\<bar>fl x - x\<bar> = \<bar>real_of_int (round_even q) - q\<bar> * p"
    using p0 by (simp add: abs_mult)
  also have "\<dots> \<le> (1 / 2) * p"
    using round_even_error [of q] p0 by (intro mult_right_mono) simp_all
  also have "\<dots> = 2 powi k / 2 ^ 53" unfolding pk by simp
  also have "\<dots> \<le> \<bar>x\<bar> / 2 ^ 53" using kx by (simp add: divide_right_mono)
  finally show ?thesis .
qed

lemma fl_bounds:
  assumes "0 \<le> x"
  shows "x * (1 - 1 / 2 ^ 53) \<le> fl x \<and> fl x \<le> x * (1 + 1 / 2 ^ 53)"
proof -
  define e where "e = x / 2 ^ 53"
  from assms have "\<bar>x\<bar> = x" by simp
  with fl_error [of x] have "\<bar>fl x - x\<bar> \<le> e" unfolding e_def by (simp only:)
  then have d: "fl x - x \<le> e \<and> - e \<le> fl x - x" unfolding abs_le_iff by argo
  have h1: "x * (1 - 1 / 2 ^ 53) = x - e" unfolding e_def by (simp add: algebra_simps)
  have h2: "x * (1 + 1 / 2 ^ 53) = x + e" unfolding e_def by (simp add: algebra_simps)
  show ?thesis unfolding h1 h2 using d by argo
qed

lemma fl_nonneg: "0 \<le> x \<Longrightarrow> 0 \<le> fl x"
proof -
  assume a: "0 \<le> x"
  have "0 \<le> x * (1 - 1 / 2 ^ 53)" using a by (intro mult_nonneg_nonneg) simp_all
  with fl_bounds [OF a] show ?thesis by linarith
qed

lemma raw_seconds_bounds:
  assumes r: "0 < r" and w: "0 \<le> w"
  shows "w * 60 / (155 * r) * (1 - 1 / 100000) \<le> fl (fl (w / fl (155 * r)) * 60)
         \<and> fl (fl (w / fl (155 * r)) * 60) \<le> w * 60 / (155 * r) * (1 + 1 / 100000)"
proof -
  define u :: real where "u = 1 - 1 / 2 ^ 53"
  define v :: real where "v = 1 + 1 / 2 ^ 53"
  define m where "m = 155 * r"
  define a where "a = fl m"
  define t where "t = w / a"
  define b where "b = fl t"
  define c where "c = fl (b * 60)"
  define X where "X = w * 60 / m"
  have u0: "0 < u" and v0: "0 < v" by (simp_all add: u_def v_def)
  have hi: "v * v / u \<le> 1 + 1 / 100000" by (simp add: u_def v_def)
  have lo: "1 - 1 / 100000 \<le> u * u / v" by (simp add: u_def v_def)
  have m0: "0 < m" using r by (simp add: m_def)
  from fl_bounds [of m] m0 have a_lo: "m * u \<le> a" and a_hi: "a \<le> m * v"
    by (simp_all add: a_def u_def v_def)
  have mu0: "0 < m * u" using m0 u0 by simp
  with a_lo have a0: "0 < a" by linarith
  have t0: "0 \<le> t" using w a0 by (simp add: t_def)
  have t_hi: "t \<le> w / (m * u)"
    unfolding t_def using a_lo w a0 mu0 by (intro divide_left_mono) simp_all
  have t_lo: "w / (m * v) \<le> t"
    unfolding t_def using a_hi w a0 m0 v0 by (intro divide_left_mono) simp_all
  from fl_bounds [OF t0] have b_lo: "t * u \<le> b" and b_hi: "b \<le> t * v"
    by (simp_all add: b_def u_def v_def)
  have b0: "0 \<le> b" unfolding b_def by (rule fl_nonneg [OF t0])
  then have b60: "0 \<le> b * 60" by simp
  from fl_bounds [OF b60] have c_lo: "b * 60 * u \<le> c" and c_hi: "c \<le> b * 60 * v"
    by (simp_all add: c_def u_def v_def)
  have X0: "0 \<le> X" using w m0 by (simp add: X_def)
  have "c \<le> b * 60 * v" by (rule c_hi)
  also have "\<dots> \<le> (t * v) * 60 * v"
    using b_hi v0 by (intro mult_right_mono) simp_all
  also have "\<dots> \<le> (w / (m * u) * v) * 60 * v"
    using t_hi v0 by (intro mult_right_mono) simp_all
  also have "\<dots> = X * (v * v / u)"
    using m0 u0 by (simp add: X_def field_simps)
  also have "\<dots> \<le> X * (1 + 1 / 100000)" using hi X0 by (rule mult_left_mono)
  finally have up: "c \<le> X * (1 + 1 / 100000)" .
  have "X * (1 - 1 / 100000) \<le> X * (u * u / v)" using lo X0 by (rule mult_left_mono)
  also have "\<dots> = (w / (m * v) * u) * 60 * u"
    using m0 v0 by (simp add: X_def field_simps)
  also have "\<dots> \<le> (t * u) * 60 * u"
    using t_lo u0 by (intro mult_right_mono) simp_all
  also have "\<dots> \<le> b * 60 * u"
    using b_lo u0 by (intro mult_right_mono) simp_all
  also have "\<dots> \<le> c" by (rule c_lo)
  finally have dn: "X * (1 - 1 / 100000) \<le> c" .
  from up dn show ?thesis
    unfolding X_def c_def b_def t_def a_def m_def by blast
qed

lemma duration_ge_2: "2 \<le> duration txt r"
  by (simp add: duration_def Let_def ceil_max)

lemma duration_short:
  assumes "0 < r" and "real (wordCount txt) * 60 \<le> 19 / 10 * (155 * r)"
  shows "duration txt r = 2"
proof -
  let ?c = "fl (fl (real (wordCount txt) / fl (155 * r)) * 60)"
  let ?X = "real (wordCount txt) * 60 / (155 * r)"
  have "?X \<le> 19 / 10" using assms by (simp add: pos_divide_le_eq)
  moreover have "0 \<le> ?X" using assms(1) by simp
  ultimately have "?X * (1 + 1 / 100000) \<le> 2" by argo
  with raw_seconds_bounds [OF assms(1), of "real (wordCount txt)"] have "?c \<le> 2" by simp
  then have "max 2 ?c = 2" by simp
  then show ?thesis by (simp add: duration_def Let_def)
qed

lemma duration_hello: "duration (js ''Hello world'') 1 = 2"
  by (rule duration_short) (simp_all add: wc_hello)

lemma estimateDuration_hello:
  "0 < estimateDuration (js ''Hello world'') 1 \<and> estimateDuration (js ''Hello world'') 1 \<le> 1"
proof -
  have l: "length (split_whitespace (js ''Hello world'')) = 2" by (simp add: js_def is_ws_def)
  from raw_seconds_bounds [of 1 2]
  have "2 * 60 / (155 * 1) * (1 - 1 / 100000) \<le> fl (fl (2 / fl (155 * 1)) * 60)"
    and "fl (fl (2 / fl (155 * 1)) * 60) \<le> 2 * 60 / (155 * 1) * (1 + 1 / 100000)"
    by simp_all
  then have "0 < fl (fl (2 / fl (155 * 1)) * 60) \<and> fl (fl (2 / fl (155 * 1)) * 60) \<le> 1"
    by argo
  then show ?thesis by (simp add: estimateDuration_def l)
qed

lemma placeholder_hello: "placeholder_duration (js ''Hello world'') 1 = 1"
proof -
  from estimateDuration_hello have "\<lceil>estimateDuration (js ''Hello world'') 1\<rceil> = 1"
    by (simp add: ceiling_eq_iff)
  then show ?thesis by (simp add: placeholder_duration_def)
qed

lemma wordCount_one_letter_words: "wordCount (one_letter_words n) = n + 1"
proof (induction n)
  case 0
  then show ?case by (simp add: wordCount_def is_ws_def)
next
  case (Suc n)
  have d: "dropWhile is_ws (one_letter_words n) = one_letter_words n"
    by (cases n) (simp_all add: is_ws_def)
  obtain w ws where sp: "split_whitespace (one_letter_words n) = w # ws"
    using split_whitespace_nonempty [of "one_letter_words n"]
    by (cases "split_whitespace (one_letter_words n)") auto
  with Suc show ?case by (simp add: wordCount_def is_ws_def d)
qed

lemma valid_one_letter_words: "n \<le> 2000 \<Longrightarrow> valid_text (one_letter_words n)"
proof -
  assume n: "n \<le> 2000"
  have l: "length (one_letter_words n) = 2 * n + 1" by (induction n) simp_all
  have ne: "one_letter_words m \<noteq> []" for m by (cases m) simp_all
  have t: "last (one_letter_words n) = 0x61" by (induction n) (simp_all add: ne)
  have "dropWhile is_ws (one_letter_words n) = one_letter_words n"
    by (cases n) (simp_all add: is_ws_def)
  moreover have "dropWhile is_ws (rev (one_letter_words n)) = rev (one_letter_words n)"
    using ne [of n] t by (cases "rev (one_letter_words n)") (auto simp: is_ws_def last_rev hd_rev)
  ultimately have "trim (one_letter_words n) = one_letter_words n" by (simp add: trim_def)
  with ne [of n] l n show ?thesis by (simp add: valid_text_def)
qed

lemma duration_961_words: "duration (one_letter_words 960) 6 = 63"
proof -
  have a: "fl (155 * 6) = 930"
    by (subst fl_eq [of 9]) (simp_all add: round_even_def)
  have b: "fl (961 / 930) = 4653719614949513 / 2 ^ 52"
    by (subst fl_eq [of 0]) (simp_all add: round_even_def)
  have c: "fl (4653719614949513 / 2 ^ 52 * 60) = 8725724278030337 / 2 ^ 47"
    by (subst fl_eq [of 5]) (simp_all add: round_even_def)
  have w: "real (wordCount (one_letter_words 960)) = 961"
    by (simp add: wordCount_one_letter_words)
  have m: "(961::real) / 930 * 1 = 961 / 930" by simp
  have "duration (one_letter_words 960) 6 = \<lceil>max 2 (fl (fl (961 / fl (155 * 6)) * 60))\<rceil>"
    by (simp only: duration_def Let_def w)
  then have "duration (one_letter_words 960) 6 = \<lceil>max 2 (8725724278030337 / 2 ^ 47 :: real)\<rceil>"
    unfolding a b c .
  then show ?thesis by simp
qed

lemma split_whitespace_no_ws:
  "w \<in> set (split_whitespace s) \<Longrightarrow> c \<in> set w \<Longrightarrow> \<not> is_ws c"
proof (induction s arbitrary: w rule: split_whitespace.induct)
  case 1
  then show ?case by simp
next
  case (2 a as)
  show ?case
  proof (cases "is_ws a")
    case True
    with 2(3,4) have "w \<in> set (split_whitespace (dropWhile is_ws as))" by auto
    from 2(1) [OF True this 2(4)] show ?thesis .
  next
    case False
    obtain v vs where sp: "split_whitespace as = v # vs"
      using split_whitespace_nonempty [of as] by (cases "split_whitespace as") auto
    with False 2(3) have "w = a # v \<or> w \<in> set vs" by simp
    then show ?thesis
    proof
      assume w: "w = a # v"
      with 2(4) have "c = a \<or> c \<in> set v" by simp
      then show ?thesis
      proof
        assume "c = a" with False show ?thesis by simp
      next
        assume "c \<in> set v"
        moreover have "v \<in> set (split_whitespace as)" using sp by simp
        ultimately show ?thesis using 2(2) [OF False] by blast
      qed
    next
      assume "w \<in> set vs"
      then have "w \<in> set (split_whitespace as)" using sp by simp
      from 2(2) [OF False this 2(4)] show ?thesis .
    qed
  qed
qed

lemma filter_dropWhile_ws:
  "filter (\<lambda>c. \<not> is_ws c) (dropWhile is_ws s) = filter (\<lambda>c. \<not> is_ws c) s"
  by (induction s) simp_all

lemma concat_split_whitespace:
  "concat (split_whitespace s) = filter (\<lambda>c. \<not> is_ws c) s"
proof (induction s rule: split_whitespace.induct)
  case 1
  then show ?case by simp
next
  case (2 a as)
  show ?case
  proof (cases "is_ws a")
    case True
    with 2(1) show ?thesis by (simp add: filter_dropWhile_ws)
  next
    case False
    obtain v vs where sp: "split_whitespace as = v # vs"
      using split_whitespace_nonempty [of as] by (cases "split_whitespace as") auto
    with False 2(2) show ?thesis by simp
  qed
qed

lemma wordCount_valid: "valid_text txt \<Longrightarrow> wordCount txt \<le> 2500"
  using wordCount_le [of "txt"] by (simp add: valid_text_def)

lemma raw_seconds_exact_le:
  assumes "valid_text txt" and "0.1 \<le> r"
  shows "(real (wordCount txt) / (155 * r)) * 60 \<le> 9678"
proof -
  have w: "real (wordCount txt) \<le> 2500" using wordCount_valid [OF assms(1)] by simp
  have pos: "0 < 155 * r" using assms(2) by simp
  have "real (wordCount txt) * 60 \<le> 9678 * (155 * r)" using w assms(2) by simp
  then have "real (wordCount txt) * 60 / (155 * r) \<le> 9678"
    using pos by (simp add: pos_divide_le_eq)
  then show ?thesis by simp
qed

lemma duration_le:
  assumes "valid_text txt" and "0.1 \<le> r"
  shows "duration txt r \<le> 9678"
proof -
  let ?c = "fl (fl (real (wordCount txt) / fl (155 * r)) * 60)"
  let ?x = "(real (wordCount txt) / (155 * r)) * 60"
  have r0: "0 < r" using assms(2) by simp
  have x0: "0 \<le> ?x" using r0 by simp
  have w: "real (wordCount txt) \<le> 2500" using wordCount_valid [OF assms(1)] by simp
  have "real (wordCount txt) * 60 \<le> 19355 / 2 * (155 * r)" using w assms(2) by simp
  then have "real (wordCount txt) * 60 / (155 * r) \<le> 19355 / 2"
    using r0 by (simp add: pos_divide_le_eq)
  then have xle: "?x \<le> 19355 / 2" by simp
  from raw_seconds_bounds [OF r0, of "real (wordCount txt)"]
  have "?c \<le> ?x * (1 + 1 / 100000)" by simp
  with x0 xle have "?c \<le> 9678" by argo
  then have "max 2 ?c \<le> 9678" by simp
  then have "\<lceil>max 2 ?c\<rceil> \<le> 9678"
    using ceiling_le [of "max 2 ?c" 9678] by simp
  then show ?thesis by (simp add: duration_def Let_def)
qed

lemma numSamples_le:
  assumes "valid_text txt" and "0.1 \<le> r"
  shows "sampleRate * duration txt r \<le> 2 ^ 30"
  using duration_le [OF assms] by (simp add: sampleRate_def)

text \<open>
  C2 as stated, with the formula read in exact arithmetic, fails: the source evaluates it in
  doubles. For 961 one-letter words at rate 6 the exact value of
  \<open>(wordCount / (155 * rate)) * 60\<close> is 62, but \<open>961 / 930\<close> rounds up, the product with
  60 is just above 62, and the duration is 63.
\<close>

theorem duration_formula_counterexample:
  "valid_text (one_letter_words 960) \<and> wordCount (one_letter_words 960) = 961
   \<and> max 2 \<lceil>(real (wordCount (one_letter_words 960)) / (155 * 6)) * 60\<rceil> = (62::int)
   \<and> duration (one_letter_words 960) 6 = 63"
proof -
  have v: "valid_text (one_letter_words 960)" by (rule valid_one_letter_words) simp
  have w: "wordCount (one_letter_words 960) = 961" by (simp add: wordCount_one_letter_words)
  have e: "max 2 \<lceil>(real (wordCount (one_letter_words 960)) / (155 * 6)) * 60\<rceil> = (62::int)"
    unfolding w by simp
  from v w e duration_961_words show ?thesis by blast
qed

text \<open>
  C2, amended: for a text that passes validation and a rate in \<open>[0.1, 10]\<close> the duration is
  \<open>max(2, ceil(x))\<close>, an integer that is at least 2, where \<open>x\<close> is
  \<open>(wordCount / (155 * rate)) * 60\<close> evaluated in double arithmetic (each of the three
  operations rounded to the nearest double) and \<open>wordCount\<close> is the number of non-empty
  pieces of the text split on runs of whitespace: the pieces hold no whitespace, and together
  they are the text without its whitespace. The duration differs by at most 1 from the value
  of the formula in exact arithmetic.
\<close>

theorem duration_formula:
  assumes "valid_text txt" and "0.1 \<le> r" and "r \<le> 10"
  shows "duration txt r = max 2 \<lceil>fl (fl (real (wordCount txt) / fl (155 * r)) * 60)\<rceil>
         \<and> 2 \<le> duration txt r
         \<and> \<bar>duration txt r - max 2 \<lceil>(real (wordCount txt) / (155 * r)) * 60\<rceil>\<bar> \<le> 1
         \<and> wordCount txt = length (filter (\<lambda>w. w \<noteq> []) (split_whitespace txt))
         \<and> (\<forall>w\<in>set (split_whitespace txt). \<forall>c\<in>set w. \<not> is_ws c)
         \<and> concat (split_whitespace txt) = filter (\<lambda>c. \<not> is_ws c) txt"
proof -
  let ?c = "fl (fl (real (wordCount txt) / fl (155 * r)) * 60)"
  let ?x = "(real (wordCount txt) / (155 * r)) * 60"
  have "duration txt r = \<lceil>max 2 ?c\<rceil>"
    by (simp add: duration_def Let_def)
  then have eq: "duration txt r = max 2 \<lceil>?c\<rceil>"
    by (simp only: ceil_max)
  have r0: "0 < r" using assms(2) by simp
  have x0: "0 \<le> ?x" using r0 by simp
  have xle: "?x \<le> 9678" using raw_seconds_exact_le [OF assms(1,2)] .
  from raw_seconds_bounds [OF r0, of "real (wordCount txt)"]
  have "?x * (1 - 1 / 100000) \<le> ?c" "?c \<le> ?x * (1 + 1 / 100000)" by simp_all
  with x0 xle have near: "?x - 1 / 2 \<le> ?c \<and> ?c \<le> ?x + 1 / 2" by argo
  have close: "\<lceil>c\<rceil> \<le> \<lceil>x\<rceil> + 1 \<and> \<lceil>x\<rceil> \<le> \<lceil>c\<rceil> + 1"
    if "x - 1 / 2 \<le> c \<and> c \<le> x + 1 / 2" for x c :: real
  proof -
    have "c \<le> real_of_int \<lceil>x\<rceil> + 1" using that le_of_int_ceiling [of x] by linarith
    then have "c \<le> real_of_int (\<lceil>x\<rceil> + 1)" by simp
    then have "\<lceil>c\<rceil> \<le> \<lceil>x\<rceil> + 1" by (rule ceiling_le)
    moreover have "x \<le> real_of_int \<lceil>c\<rceil> + 1" using that le_of_int_ceiling [of c] by linarith
    then have "x \<le> real_of_int (\<lceil>c\<rceil> + 1)" by simp
    then have "\<lceil>x\<rceil> \<le> \<lceil>c\<rceil> + 1" by (rule ceiling_le)
    ultimately show ?thesis by blast
  qed
  from close [OF near] have "\<lceil>?c\<rceil> \<le> \<lceil>?x\<rceil> + 1" "\<lceil>?x\<rceil> \<le> \<lceil>?c\<rceil> + 1" by blast+
  then have cl: "\<bar>duration txt r - max 2 \<lceil>?x\<rceil>\<bar> \<le> 1" unfolding eq by linarith
  have "2 \<le> duration txt r" by (rule duration_ge_2)
  moreover have "wordCount txt = length (filter (\<lambda>w. w \<noteq> []) (split_whitespace txt))"
    by (simp add: wordCount_def)
  moreover have "\<forall>w\<in>set (split_whitespace txt). \<forall>c\<in>set w. \<not> is_ws c"
    using split_whitespace_no_ws by blast
  moreover have "concat (split_whitespace txt) = filter (\<lambda>c. \<not> is_ws c) txt"
    by (rule concat_split_whitespace)
  ultimately show ?thesis using eq cl by blast
qed

theorem duration_formula_witness:
  "valid_text (js ''Hello world'') \<and> (0.1::real) \<le> 1 \<and> (1::real) \<le> 10
   \<and> split_whitespace (js ''Hello world'') = [js ''Hello'', js ''world'']
   \<and> wordCount (js ''Hello world'') = 2 \<and> duration (js ''Hello world'') 1 = 2"
proof -
  have s: "split_whitespace (js ''Hello world'') = [js ''Hello'', js ''world'']"
    by (simp add: js_def is_ws_def)
  from duration_formula [OF valid_hello, of 1] s show ?thesis
    by (simp add: valid_hello wc_hello duration_hello)
qed

section \<open>Validation\<close>

text \<open>
  C6: a request whose \<^verbatim>\<open>text\<close> is missing or not a string, is empty after trimming, or
  is longer than 5000 characters after trimming gets the 400 response; the handler returns
  before \<^verbatim>\<open>generateAudioWAV\<close> is called: the response carries no audio and the random
  source is untouched.
\<close>

theorem POST_rejects_invalid_text:
  assumes "(\<forall>s. body_text body \<noteq> JString s)
           \<or> (\<exists>s. body_text body = JString s \<and> (trim s = [] \<or> 5000 < length (trim s)))"
  shows "\<exists>msg. POST body g = (JsonResponse msg 400, g)"
  using assms
proof
  assume "\<forall>s. body_text body \<noteq> JString s"
  then show ?thesis by (cases "body_text body") (simp_all add: POST_def)
next
  assume "\<exists>s. body_text body = JString s \<and> (trim s = [] \<or> 5000 < length (trim s))"
  then obtain s where s: "body_text body = JString s"
    and d: "trim s = [] \<or> 5000 < length (trim s)"
    by blast
  from d show ?thesis
  proof
    assume "trim s = []"
    with s show ?thesis by (simp add: POST_def)
  next
    assume "5000 < length (trim s)"
    with length_trim_le [of s] have "5000 < length s" by linarith
    with s show ?thesis by (simp add: POST_def)
  qed
qed

theorem POST_rejects_invalid_text_witness:
  "(\<exists>msg. POST (body_of JUndefined) (\<lambda>n. 0) = (JsonResponse msg 400, \<lambda>n. 0))
   \<and> (\<exists>msg. POST (body_of (JString (js ''  ''))) (\<lambda>n. 0) = (JsonResponse msg 400, \<lambda>n. 0))
   \<and> (\<exists>msg. POST (body_of (JString (replicate 5001 0x61))) (\<lambda>n. 0)
              = (JsonResponse msg 400, \<lambda>n. 0))"
proof -
  have a: "\<forall>s. body_text (body_of JUndefined) \<noteq> JString s"
    by (simp add: body_of_def)
  have b: "\<exists>s. body_text (body_of (JString (js ''  ''))) = JString s
             \<and> (trim s = [] \<or> 5000 < length (trim s))"
    by (simp add: body_of_def js_def trim_def is_ws_def)
  have c: "\<exists>s. body_text (body_of (JString (replicate 5001 0x61))) = JString s
             \<and> (trim s = [] \<or> 5000 < length (trim s))"
    by (simp add: body_of_def trim_def is_ws_def)
  show ?thesis
    using POST_rejects_invalid_text [of "body_of JUndefined" "\<lambda>n. 0", OF disjI1, OF a]
      POST_rejects_invalid_text [of "body_of (JString (js ''  ''))" "\<lambda>n. 0", OF disjI2, OF b]
      POST_rejects_invalid_text [of "body_of (JString (replicate 5001 0x61))" "\<lambda>n. 0",
        OF disjI2, OF c]
    by blast
qed

section \<open>Client and server durations\<close>

lemma hd_split_whitespace:
  "hd (split_whitespace s) = [] \<longleftrightarrow> s = [] \<or> is_ws (hd s)"
  using split_whitespace_nonempty [of "tl s"]
  by (cases s) (auto split: list.splits)

lemma tl_split_whitespace:
  "s \<noteq> [] \<Longrightarrow> \<not> is_ws (last s) \<Longrightarrow> [] \<notin> set (tl (split_whitespace s))"
proof (induction s rule: split_whitespace.induct)
  case 1
  then show ?case by simp
next
  case (2 c cs)
  show ?case
  proof (cases "is_ws c")
    case True
    with 2(4) have cs: "cs \<noteq> []" by auto
    with 2(4) have l: "\<not> is_ws (last cs)" by simp
    let ?d = "dropWhile is_ws cs"
    from cs l have ex: "\<exists>x\<in>set cs. \<not> is_ws x" using last_in_set by blast
    then have dn: "?d \<noteq> []" by (simp add: dropWhile_eq_Nil_conv)
    then have hdd: "\<not> is_ws (hd ?d)" by (rule hd_dropWhile)
    have "last ?d = last cs"
      using dn by (metis takeWhile_dropWhile_id last_appendR)
    with l have ld: "\<not> is_ws (last ?d)" by simp
    from 2(1) [OF True dn ld] have t: "[] \<notin> set (tl (split_whitespace ?d))" .
    from hdd dn have h: "hd (split_whitespace ?d) \<noteq> []" by (simp add: hd_split_whitespace)
    have "split_whitespace ?d = hd (split_whitespace ?d) # tl (split_whitespace ?d)"
      using split_whitespace_nonempty [of ?d] by simp
    with t h have "[] \<notin> set (split_whitespace ?d)" by (metis set_ConsD)
    with True show ?thesis by simp
  next
    case False
    obtain w ws where sp: "split_whitespace cs = w # ws"
      using split_whitespace_nonempty [of cs] by (cases "split_whitespace cs") auto
    show ?thesis
    proof (cases "cs = []")
      case True
      with False show ?thesis by simp
    next
      case F: False
      with 2(4) have "\<not> is_ws (last cs)" by simp
      from 2(2) [OF False F this] sp False show ?thesis by simp
    qed
  qed
qed

lemma split_whitespace_trimmed:
  assumes "s \<noteq> []" "\<not> is_ws (hd s)" "\<not> is_ws (last s)"
  shows "wordCount s = length (split_whitespace s)"
proof -
  have h: "hd (split_whitespace s) \<noteq> []" using assms by (simp add: hd_split_whitespace)
  have t: "[] \<notin> set (tl (split_whitespace s))" using assms by (simp add: tl_split_whitespace)
  have "split_whitespace s = hd (split_whitespace s) # tl (split_whitespace s)"
    using split_whitespace_nonempty [of s] by simp
  with t h have "[] \<notin> set (split_whitespace s)" by (metis set_ConsD)
  then have "filter (\<lambda>word. length word > 0) (split_whitespace s) = split_whitespace s"
    by (auto simp: filter_id_conv)
  then show ?thesis by (simp add: wordCount_def)
qed

text \<open>
  C7 as stated (the client placeholder path and the server path compute the same duration
  for every text and rate) fails: for "Hello world" at rate 1 the client gets 1 second and
  the server 2.
\<close>

theorem client_server_duration_counterexample:
  "placeholder_duration (js ''Hello world'') 1 \<noteq> duration (js ''Hello world'') 1"
proof -
  show ?thesis by (simp add: duration_hello placeholder_hello)
qed

text \<open>
  C7, amended: for a non-empty text without leading or trailing whitespace and a positive
  rate, both paths use 155 words per minute and the factor 60 and count the same words, but
  the client floors the duration at 1 second and the server at 2: the server's duration is
  the client's raised to at least 2.
\<close>

theorem client_server_duration:
  assumes "txt \<noteq> []" and "\<not> is_ws (hd txt)" and "\<not> is_ws (last txt)" and "0 < r"
  shows "duration txt r = max 2 (placeholder_duration txt r)"
proof -
  let ?x = "fl (fl (real (length (split_whitespace txt)) / fl (155 * r)) * 60)"
  have "duration txt r = \<lceil>max 2 ?x\<rceil>"
    using split_whitespace_trimmed [OF assms(1-3)] by (simp add: duration_def Let_def)
  then have "duration txt r = max 2 \<lceil>?x\<rceil>" by (simp only: ceil_max)
  moreover have "placeholder_duration txt r = max 1 \<lceil>?x\<rceil>"
    by (simp add: placeholder_duration_def estimateDuration_def Let_def)
  ultimately show ?thesis by linarith
qed

theorem client_server_duration_witness:
  "js ''Hello world'' \<noteq> [] \<and> \<not> is_ws (hd (js ''Hello world''))
   \<and> \<not> is_ws (last (js ''Hello world'')) \<and> (0::real) < 1
   \<and> duration (js ''Hello world'') 1 = max 2 (placeholder_duration (js ''Hello world'') 1)
   \<and> placeholder_duration (js ''Hello world'') 1 = 1"
proof -
  have a: "js ''Hello world'' \<noteq> []" by (simp add: js_def)
  have b: "\<not> is_ws (hd (js ''Hello world''))" by (simp add: js_def is_ws_def)
  have c: "\<not> is_ws (last (js ''Hello world''))" by (simp add: js_def is_ws_def)
  have d: "placeholder_duration (js ''Hello world'') 1 = 1" by (rule placeholder_hello)
  from client_server_duration [OF a b c, of 1] a b c d show ?thesis by simp
qed

section \<open>Bytes, header and sample loop\<close>

lemma le16: "(v::int) mod 256 + 256 * ((v div 256) mod 256) = v mod 65536"
  using zmod_zmult2_eq [of 256 v 256] by simp

lemma le32_aux:
  "m0 + 256 * m1 = x16 \<Longrightarrow> x32 = 65536 * y + x16 \<Longrightarrow> y = 256 * m3 + m2 \<Longrightarrow>
   m0 + 256 * m1 + 65536 * m2 + 16777216 * m3 = (x32::int)"
  by linarith

lemma le32: "(v::int) mod 256 + 256 * ((v div 256) mod 256) + 65536 * ((v div 65536) mod 256)
         + 16777216 * ((v div 16777216) mod 256) = v mod 4294967296"
proof -
  have a: "v mod 4294967296 = 65536 * ((v div 65536) mod 65536) + v mod 65536"
    using zmod_zmult2_eq [of 65536 v 65536] by simp
  have c: "v div 65536 div 256 = v div 16777216"
    using zdiv_zmult2_eq [of 65536 v 256] by simp
  have b: "(v div 65536) mod 65536 = 256 * ((v div 16777216) mod 256) + (v div 65536) mod 256"
    using zmod_zmult2_eq [of 256 "v div 65536" 256] by (simp add: c)
  show ?thesis by (rule le32_aux [OF le16 a b])
qed

lemma uint_byte: "uint (word_of_int v :: byte) = v mod 256"
  by (simp add: uint_word_of_int)

lemma getInt16_set:
  assumes "off + 2 \<le> length view" and "- 32768 \<le> v" and "v \<le> 32767"
  shows "getInt16 (view[off := word_of_int v, off + 1 := word_of_int (v div 256)]) off = v"
proof -
  have "getUint16 (view[off := word_of_int v, off + 1 := word_of_int (v div 256)]) off = v mod 65536"
    using assms(1) by (simp add: getUint16_def uint_byte le16)
  moreover have "v mod 65536 = (if 0 \<le> v then v else v + 65536)"
  proof (cases "0 \<le> v")
    case True
    with assms(3) show ?thesis by (simp add: mod_pos_pos_trivial)
  next
    case False
    have "(v + 65536) mod 65536 = v + 65536"
      using False assms(2) by (intro mod_pos_pos_trivial) linarith+
    moreover have "(v + 65536) mod 65536 = v mod 65536" by simp
    ultimately show ?thesis using False by simp
  qed
  ultimately show ?thesis using assms(2,3) by (simp add: getInt16_def Let_def)
qed

lemma write_header_eq:
  assumes "44 \<le> length view"
  shows "write_header view fs ds = Inr (view
    [0 := 0x52, Suc 0 := 0x49, Suc (Suc 0) := 0x46, Suc (Suc (Suc 0)) := 0x46,
     4 := word_of_int (fs - 8), 5 := word_of_int ((fs - 8) div 256),
     6 := word_of_int ((fs - 8) div 65536), 7 := word_of_int ((fs - 8) div 16777216),
     8 := 0x57, 9 := 0x41, 10 := 0x56, 11 := 0x45,
     12 := 0x66, 13 := 0x6D, 14 := 0x74, 15 := 0x20,
     16 := 16, 17 := 0, 18 := 0, 19 := 0,
     20 := 1, 21 := 0,
     22 := 1, 23 := 0,
     24 := 44100, 25 := 172, 26 := 0, 27 := 0,
     28 := 88200, 29 := 344, 30 := 1, 31 := 0,
     32 := 2, 33 := 0,
     34 := 16, 35 := 0,
     36 := 0x64, 37 := 0x61, 38 := 0x74, 39 := 0x61,
     40 := word_of_int ds, 41 := word_of_int (ds div 256),
     42 := word_of_int (ds div 65536), 43 := word_of_int (ds div 16777216)])"
  using assms
  by (simp add: write_header_def js_def bind_err_def setUint8_def setUint16_def setUint32_def
      sampleRate_def numChannels_def bitsPerSample_def)


lemma getUint32_bytes:
  assumes "view ! off = word_of_int v" and "view ! (off + 1) = word_of_int (v div 256)"
    and "view ! (off + 2) = word_of_int (v div 65536)"
    and "view ! (off + 3) = word_of_int (v div 16777216)"
  shows "getUint32 view off = v mod 4294967296"
  unfolding getUint32_def assms by (simp only: uint_byte le32)

lemma write_header_ok:
  assumes "44 \<le> length view"
  shows "\<exists>view'. write_header view fs ds = Inr view' \<and> length view' = length view
           \<and> getUint32 view' 4 = (fs - 8) mod 4294967296
           \<and> getUint32 view' 40 = ds mod 4294967296
           \<and> (\<forall>j\<ge>44. view' ! j = view ! j)"
proof -
  let ?h = "view
    [0 := 0x52, Suc 0 := 0x49, Suc (Suc 0) := 0x46, Suc (Suc (Suc 0)) := 0x46,
     4 := word_of_int (fs - 8), 5 := word_of_int ((fs - 8) div 256),
     6 := word_of_int ((fs - 8) div 65536), 7 := word_of_int ((fs - 8) div 16777216),
     8 := 0x57, 9 := 0x41, 10 := 0x56, 11 := 0x45,
     12 := 0x66, 13 := 0x6D, 14 := 0x74, 15 := 0x20,
     16 := 16, 17 := 0, 18 := 0, 19 := 0,
     20 := 1, 21 := 0,
     22 := 1, 23 := 0,
     24 := 44100, 25 := 172, 26 := 0, 27 := 0,
     28 := 88200, 29 := 344, 30 := 1, 31 := 0,
     32 := 2, 33 := 0,
     34 := 16, 35 := 0,
     36 := 0x64, 37 := 0x61, 38 := 0x74, 39 := 0x61,
     40 := word_of_int ds, 41 := word_of_int (ds div 256),
     42 := word_of_int (ds div 65536), 43 := word_of_int (ds div 16777216)]"
  have e: "write_header view fs ds = Inr ?h" by (rule write_header_eq [OF assms])
  have l: "length ?h = length view" by simp
  have a0: "?h ! 4 = word_of_int (fs - 8)" using assms by simp
  have a1: "?h ! (4 + 1) = word_of_int ((fs - 8) div 256)" using assms by simp
  have a2: "?h ! (4 + 2) = word_of_int ((fs - 8) div 65536)" using assms by simp
  have a3: "?h ! (4 + 3) = word_of_int ((fs - 8) div 16777216)" using assms by simp
  have a: "getUint32 ?h 4 = (fs - 8) mod 4294967296"
    by (rule getUint32_bytes [OF a0 a1 a2 a3])
  have b0: "?h ! 40 = word_of_int ds" using assms by simp
  have b1: "?h ! (40 + 1) = word_of_int (ds div 256)" using assms by simp
  have b2: "?h ! (40 + 2) = word_of_int (ds div 65536)" using assms by simp
  have b3: "?h ! (40 + 3) = word_of_int (ds div 16777216)" using assms by simp
  have b: "getUint32 ?h 40 = ds mod 4294967296"
    by (rule getUint32_bytes [OF b0 b1 b2 b3])
  have c: "\<forall>j\<ge>44. ?h ! j = view ! j" by simp
  from e l a b c show ?thesis by blast
qed

lemma intSample_range: "- 32768 \<le> intSample x \<and> intSample x \<le> 32767"
  by (simp add: intSample_def)

lemma sample_value_range:
  "- 32768 \<le> fst (sample_value txt s d n i g) \<and> fst (sample_value txt s d n i g) \<le> 32767"
  using intSample_range
  by (simp add: sample_value_def Let_def split: option.splits prod.splits)

lemma char_sample_rng: "\<exists>k. snd (char_sample c p t g) = (\<lambda>m. g (m + k))"
proof (cases "c = 0x20 \<or> c \<in> set vowels")
  case True
  then have "snd (char_sample c p t g) = (\<lambda>m. g (m + 0))"
    by (auto simp: char_sample_def Let_def)
  then show ?thesis by blast
next
  case False
  then have "snd (char_sample c p t g) = (\<lambda>m. g (m + 1))"
    by (simp add: char_sample_def Let_def Math_random_def)
  then show ?thesis by blast
qed

lemma sample_value_rng: "\<exists>k. snd (sample_value txt s d n i g) = (\<lambda>m. g (m + k))"
proof (cases "charAt txt (charIndex txt n i)")
  case None
  then have "snd (sample_value txt s d n i g) = (\<lambda>m. g (m + 0))"
    by (simp add: sample_value_def)
  then show ?thesis by blast
next
  case (Some c)
  then have "snd (sample_value txt s d n i g) = snd (char_sample c (pitch s) (sample_time i) g)"
    by (simp add: sample_value_def Let_def split: prod.splits)
  with char_sample_rng [of c "pitch s" "sample_time i" g] show ?thesis by simp
qed

lemma setInt16_ok:
  assumes "off + 2 \<le> length view" and "- 32768 \<le> v" and "v \<le> 32767"
  shows "\<exists>view'. setInt16 view off v = Inr view' \<and> length view' = length view
           \<and> (\<forall>j. j < off \<or> off + 2 \<le> j \<longrightarrow> view' ! j = view ! j)
           \<and> getInt16 view' off = v"
proof -
  let ?v = "view[off := word_of_int v, off + 1 := word_of_int (v div 256)]"
  have "setInt16 view off v = Inr ?v" using assms(1) by (simp add: setInt16_def)
  moreover have "length ?v = length view" by simp
  moreover have "\<forall>j. j < off \<or> off + 2 \<le> j \<longrightarrow> ?v ! j = view ! j" by auto
  moreover have "getInt16 ?v off = v" by (rule getInt16_set [OF assms])
  ultimately show ?thesis by blast
qed

lemma sample_step_ok:
  assumes "44 + 2 * i + 2 \<le> length view"
  shows "\<exists>view'. sample_step txt s d n i (view, g) = Inr (view', snd (sample_value txt s d n i g))
           \<and> length view' = length view
           \<and> (\<forall>j. j < 44 + 2 * i \<or> 44 + 2 * i + 2 \<le> j \<longrightarrow> view' ! j = view ! j)
           \<and> getInt16 view' (44 + 2 * i) = fst (sample_value txt s d n i g)"
proof -
  obtain v g' where sv: "sample_value txt s d n i g = (v, g')" by (cases "sample_value txt s d n i g")
  from sample_value_range [of "txt" s d n i g] sv have r: "- 32768 \<le> v" "v \<le> 32767" by simp_all
  from setInt16_ok [OF assms r] obtain view' where
    "setInt16 view (44 + 2 * i) v = Inr view'" "length view' = length view"
    "\<forall>j. j < 44 + 2 * i \<or> 44 + 2 * i + 2 \<le> j \<longrightarrow> view' ! j = view ! j"
    "getInt16 view' (44 + 2 * i) = v" by blast
  then show ?thesis using sv by (simp add: sample_step_def bind_err_def mult.commute)
qed

lemma getInt16_cong:
  "view' ! off = view ! off \<Longrightarrow> view' ! (off + 1) = view ! (off + 1) \<Longrightarrow>
   getInt16 view' off = getInt16 view off"
  by (simp add: getInt16_def getUint16_def)

lemma sample_loop_ok:
  assumes "int (length view) = 44 + 2 * n"
  shows "\<exists>view' g'. sample_loop txt s d n i (view, g) = Inr (view', g')
           \<and> length view' = length view
           \<and> (\<forall>j < 44 + 2 * i. view' ! j = view ! j)
           \<and> (\<exists>k. g' = (\<lambda>m. g (m + k)))
           \<and> (\<forall>m. i \<le> m \<and> int m < n \<longrightarrow>
                 (\<exists>k. getInt16 view' (44 + 2 * m)
                        = fst (sample_value txt s d n m (\<lambda>x. g (x + k)))))"
  using assms
proof (induction "nat (n - int i)" arbitrary: i view g)
  case 0
  then have "\<not> int i < n" by simp
  then have "sample_loop txt s d n i (view, g) = Inr (view, g)"
    by (subst sample_loop.simps) simp
  moreover have "g = (\<lambda>m. g (m + 0))" by simp
  moreover have "\<forall>m. i \<le> m \<and> int m < n \<longrightarrow>
                 (\<exists>k. getInt16 view (44 + 2 * m)
                        = fst (sample_value txt s d n m (\<lambda>x. g (x + k))))"
    using \<open>\<not> int i < n\<close> by auto
  ultimately show ?case by blast
next
  case (Suc k)
  then have lt: "int i < n" by linarith
  with Suc.prems have fit: "44 + 2 * i + 2 \<le> length view" by linarith
  from sample_step_ok [OF fit, of "txt" s d n g] obtain view1 where
    st: "sample_step txt s d n i (view, g) = Inr (view1, snd (sample_value txt s d n i g))"
    and l1: "length view1 = length view"
    and p1: "\<forall>j. j < 44 + 2 * i \<or> 44 + 2 * i + 2 \<le> j \<longrightarrow> view1 ! j = view ! j"
    and v1: "getInt16 view1 (44 + 2 * i) = fst (sample_value txt s d n i g)" by blast
  let ?g1 = "snd (sample_value txt s d n i g)"
  obtain k1 where g1: "?g1 = (\<lambda>m. g (m + k1))" using sample_value_rng by blast
  have m1: "k = nat (n - int (Suc i))" using Suc.hyps(2) by linarith
  have len1: "int (length view1) = 44 + 2 * n" using l1 Suc.prems by simp
  from Suc.hyps(1) [OF m1 len1, of ?g1] obtain view' g' where
    lp: "sample_loop txt s d n (Suc i) (view1, ?g1) = Inr (view', g')"
    and l2: "length view' = length view1"
    and p2: "\<forall>j < 44 + 2 * Suc i. view' ! j = view1 ! j"
    and r2: "\<exists>k. g' = (\<lambda>m. ?g1 (m + k))"
    and e2: "\<forall>m. Suc i \<le> m \<and> int m < n \<longrightarrow>
                 (\<exists>k. getInt16 view' (44 + 2 * m)
                        = fst (sample_value txt s d n m (\<lambda>x. ?g1 (x + k))))" by blast
  have a: "sample_loop txt s d n i (view, g) = Inr (view', g')"
    using lt st lp by (subst sample_loop.simps) (simp add: bind_err_def)
  have b: "length view' = length view" using l1 l2 by simp
  have c: "\<forall>j < 44 + 2 * i. view' ! j = view ! j" using p1 p2 by simp
  from r2 obtain k2 where "g' = (\<lambda>m. ?g1 (m + k2))" by blast
  then have "g' = (\<lambda>m. g (m + (k2 + k1)))" by (simp add: g1 add.assoc)
  then have d: "\<exists>k. g' = (\<lambda>m. g (m + k))" by blast
  have e: "\<forall>m. i \<le> m \<and> int m < n \<longrightarrow>
                 (\<exists>k. getInt16 view' (44 + 2 * m)
                        = fst (sample_value txt s d n m (\<lambda>x. g (x + k))))"
  proof (intro allI impI)
    fix m assume m: "i \<le> m \<and> int m < n"
    show "\<exists>k. getInt16 view' (44 + 2 * m) = fst (sample_value txt s d n m (\<lambda>x. g (x + k)))"
    proof (cases "m = i")
      case True
      have "getInt16 view' (44 + 2 * i) = getInt16 view1 (44 + 2 * i)"
        using p2 by (intro getInt16_cong) simp_all
      with v1 have "getInt16 view' (44 + 2 * i) = fst (sample_value txt s d n i (\<lambda>x. g (x + 0)))"
        by simp
      with True show ?thesis by blast
    next
      case False
      with m have "Suc i \<le> m \<and> int m < n" by simp
      with e2 obtain k3 where
        "getInt16 view' (44 + 2 * m) = fst (sample_value txt s d n m (\<lambda>x. ?g1 (x + k3)))"
        by blast
      then have "getInt16 view' (44 + 2 * m)
                   = fst (sample_value txt s d n m (\<lambda>x. g (x + (k3 + k1))))"
        by (simp add: g1 add.assoc)
      then show ?thesis by blast
    qed
  qed
  from a b c d e show ?case by blast
qed

lemma getUint32_cong:
  "view' ! off = view ! off \<Longrightarrow> view' ! (off + 1) = view ! (off + 1) \<Longrightarrow>
   view' ! (off + 2) = view ! (off + 2) \<Longrightarrow> view' ! (off + 3) = view ! (off + 3) \<Longrightarrow>
   getUint32 view' off = getUint32 view off"
  by (simp add: getUint32_def)

lemma generate_ok:
  assumes "valid_text txt" and "0.1 \<le> rate s"
  shows "\<exists>view g'. generateAudioWAV txt s g = Inr (view, g')
           \<and> int (length view) = 44 + 2 * (sampleRate * duration txt (rate s))
           \<and> getUint32 view 4 = int (length view) - 8
           \<and> getUint32 view 40 = 2 * (sampleRate * duration txt (rate s))
           \<and> (\<exists>k. g' = (\<lambda>m. g (m + k)))
           \<and> (\<forall>m. int m < sampleRate * duration txt (rate s) \<longrightarrow>
                 (\<exists>k. getInt16 view (44 + 2 * m)
                        = fst (sample_value txt s (duration txt (rate s))
                                 (sampleRate * duration txt (rate s)) m (\<lambda>x. g (x + k)))))"
proof -
  let ?d = "duration txt (rate s)"
  let ?n = "sampleRate * ?d"
  let ?fs = "44 + ?n * numChannels * (bitsPerSample div 8)"
  let ?b = "replicate (nat ?fs) (0::byte)"
  have d2: "2 \<le> ?d" by (rule duration_ge_2)
  have dle: "?d \<le> 9678" by (rule duration_le [OF assms])
  have fs: "?fs = 44 + 2 * ?n" by (simp add: numChannels_def bitsPerSample_def)
  have n0: "0 \<le> ?n" using d2 by (simp add: sampleRate_def)
  have nle: "?n \<le> 426799800" using dle by (simp add: sampleRate_def)
  have fs0: "0 \<le> ?fs" using n0 unfolding fs by linarith
  have "int (length ?b) = ?fs" using fs0 by (simp only: length_replicate int_nat_eq if_True)
  then have lb: "int (length ?b) = 44 + 2 * ?n" unfolding fs .
  then have "44 \<le> length ?b" using n0 by linarith
  from write_header_ok [OF this, of ?fs "?n * numChannels * (bitsPerSample div 8)"]
  obtain view0 where
    h: "write_header ?b ?fs (?n * numChannels * (bitsPerSample div 8)) = Inr view0"
    and l0: "length view0 = length ?b"
    and u4: "getUint32 view0 4 = (?fs - 8) mod 4294967296"
    and u40: "getUint32 view0 40 = (?n * numChannels * (bitsPerSample div 8)) mod 4294967296"
    by blast
  have len0: "int (length view0) = 44 + 2 * ?n" using l0 lb by simp
  from sample_loop_ok [OF len0, of "txt" s ?d 0 g] obtain view g' where
    lp: "sample_loop txt s ?d ?n 0 (view0, g) = Inr (view, g')"
    and l: "length view = length view0"
    and p: "\<forall>j < 44 + 2 * 0. view ! j = view0 ! j"
    and r: "\<exists>k. g' = (\<lambda>m. g (m + k))"
    and e: "\<forall>m. 0 \<le> m \<and> int m < ?n \<longrightarrow>
                 (\<exists>k. getInt16 view (44 + 2 * m)
                        = fst (sample_value txt s ?d ?n m (\<lambda>x. g (x + k))))" by blast
  have g: "generateAudioWAV txt s g = Inr (view, g')"
    using h lp by (simp add: generateAudioWAV_def Let_def bind_err_def)
  have len: "int (length view) = 44 + 2 * ?n" using l len0 by simp
  have m4: "(?fs - 8) mod 4294967296 = ?fs - 8"
    using n0 nle fs by (intro mod_pos_pos_trivial) linarith+
  have eq: "?n * numChannels * (bitsPerSample div 8) = 2 * ?n"
    by (simp add: numChannels_def bitsPerSample_def)
  have md: "(2 * ?n) mod 4294967296 = 2 * ?n"
    using n0 nle by (intro mod_pos_pos_trivial) linarith+
  have "getUint32 view 4 = getUint32 view0 4" using p by (intro getUint32_cong) simp_all
  also have "\<dots> = ?fs - 8" using u4 m4 by (simp only:)
  also have "\<dots> = int (length view) - 8" unfolding fs len by simp
  finally have a: "getUint32 view 4 = int (length view) - 8" .
  have "getUint32 view 40 = getUint32 view0 40" using p by (intro getUint32_cong) simp_all
  also have "\<dots> = (2 * ?n) mod 4294967296" using u40 unfolding eq .
  finally have b: "getUint32 view 40 = 2 * ?n" unfolding md .
  from e have e': "\<forall>m. int m < ?n \<longrightarrow>
                 (\<exists>k. getInt16 view (44 + 2 * m)
                        = fst (sample_value txt s ?d ?n m (\<lambda>x. g (x + k))))" by simp
  from g len a b r e' show ?thesis by blast
qed

section \<open>The emitted container and its samples\<close>

lemma normalized_settings_valid: "valid_settings (normalized_settings body)"
  by (simp add: valid_settings_def normalized_settings_def Let_def split: option.splits)

lemma valid_text_nonempty: "valid_text txt \<Longrightarrow> txt \<noteq> []"
  by (auto simp: valid_text_def trim_def)

lemma POST_accepts:
  assumes "body_text body = JString txt" and "valid_text txt"
    and "generateAudioWAV txt (normalized_settings body) g = Inr (view, g')"
  shows "POST body g = (AudioResponse view, g')"
  using assms valid_text_nonempty [OF assms(2)] by (simp add: POST_def valid_text_def)

lemma length_samples_of: "length (samples_of view) = (length view - 44) div 2"
  by (simp add: samples_of_def)

lemma valid_neutral: "valid_settings neutral"
  by (simp add: valid_settings_def neutral_def)

text \<open>
  C1: for every request that passes validation the encoder returns a container whose sample
  data starts at byte 44 (the header is the 44 bytes before it), whose u32 at offset 4 is the
  length of the container minus 8, and whose u32 at offset 40 is twice the number of samples
  emitted, which is \<open>44100 * duration\<close>.
\<close>

theorem wav_header_sizes:
  assumes "valid_text txt" and "valid_settings s"
  shows "\<exists>view g'. generateAudioWAV txt s g = Inr (view, g')
           \<and> int (length view) = 44 + 2 * (sampleRate * duration txt (rate s))
           \<and> getUint32 view 4 = int (length view) - 8
           \<and> getUint32 view 40 = 2 * int (length (samples_of view))
           \<and> int (length (samples_of view)) = sampleRate * duration txt (rate s)"
proof -
  from assms(2) have r: "0.1 \<le> rate s" by (simp add: valid_settings_def)
  from generate_ok [OF assms(1) r, of g] obtain view g' where
    g: "generateAudioWAV txt s g = Inr (view, g')"
    and l: "int (length view) = 44 + 2 * (sampleRate * duration txt (rate s))"
    and a: "getUint32 view 4 = int (length view) - 8"
    and b: "getUint32 view 40 = 2 * (sampleRate * duration txt (rate s))" by blast
  have n0: "0 \<le> sampleRate * duration txt (rate s)"
    using duration_ge_2 [of "txt" "rate s"] by (simp add: sampleRate_def)
  have "int (length (samples_of view)) = sampleRate * duration txt (rate s)"
    using l n0 unfolding length_samples_of by linarith
  with g l a b show ?thesis by auto
qed

theorem wav_header_sizes_witness:
  "valid_text (js ''Hello world'') \<and> valid_settings neutral
   \<and> (\<exists>view g'. generateAudioWAV (js ''Hello world'') neutral (constant_rng 0) = Inr (view, g')
          \<and> length view = 176444 \<and> getUint32 view 4 = 176436 \<and> getUint32 view 40 = 176400)"
proof -
  have d: "duration (js ''Hello world'') (rate neutral) = 2"
    by (simp add: neutral_def duration_hello)
  from wav_header_sizes [OF valid_hello valid_neutral, of "constant_rng 0"]
  show ?thesis unfolding d by (auto simp: valid_hello valid_neutral sampleRate_def)
qed

text \<open>
  C3: for every request that passes validation, \<^verbatim>\<open>POST\<close> answers with a container
  that holds exactly \<open>44100 * duration\<close> samples and is exactly
  \<open>44 + 2 * (44100 * duration)\<close> bytes long. The witness is the request "Hello world" with
  rate, pitch and volume 1: duration 2, 88200 samples, 176444 bytes.
\<close>

theorem container_size:
  assumes "body_text body = JString txt" and "valid_text txt"
  shows "\<exists>view g'. POST body g = (AudioResponse view, g')
           \<and> int (length (samples_of view)) = 44100 * duration txt (rate (normalized_settings body))
           \<and> int (length view) = 44 + 2 * (44100 * duration txt (rate (normalized_settings body)))"
proof -
  let ?s = "normalized_settings body"
  have r: "0.1 \<le> rate ?s" using normalized_settings_valid [of body] by (simp add: valid_settings_def)
  from generate_ok [OF assms(2) r, of g] obtain view g' where
    g: "generateAudioWAV txt ?s g = Inr (view, g')"
    and l: "int (length view) = 44 + 2 * (sampleRate * duration txt (rate ?s))" by blast
  have p: "POST body g = (AudioResponse view, g')" by (rule POST_accepts [OF assms g])
  have n0: "0 \<le> sampleRate * duration txt (rate ?s)"
    using duration_ge_2 [of "txt" "rate ?s"] by (simp add: sampleRate_def)
  have "int (length (samples_of view)) = sampleRate * duration txt (rate ?s)"
    using l n0 unfolding length_samples_of by linarith
  with p l show ?thesis by (auto simp: sampleRate_def)
qed

theorem container_size_witness:
  "body_text hello_body = JString (js ''Hello world'') \<and> valid_text (js ''Hello world'')
   \<and> duration (js ''Hello world'') (rate (normalized_settings hello_body)) = 2
   \<and> (\<exists>view g'. POST hello_body (constant_rng 0) = (AudioResponse view, g')
          \<and> length (samples_of view) = 88200 \<and> length view = 176444)"
proof -
  have b: "body_text hello_body = JString (js ''Hello world'')" by (simp add: hello_body_def)
  have d: "duration (js ''Hello world'') (rate (normalized_settings hello_body)) = 2"
    by (simp add: hello_body_def normalized_settings_def duration_hello)
  from container_size [OF b valid_hello, of "constant_rng 0"]
  show ?thesis unfolding d by (auto simp: b valid_hello)
qed

lemma charIndex_range:
  assumes "txt \<noteq> []" and "int i < n" and "n \<le> 2 ^ 30"
  shows "0 \<le> charIndex txt n i \<and> charIndex txt n i < int (length txt)"
proof -
  define v :: real where "v = 1 + 1 / 2 ^ 53"
  define s :: real where "s = 1 - 1 / 2 ^ 30"
  define p where "p = real i / real_of_int n"
  define l where "l = real (length txt)"
  have v0: "0 < v" by (simp add: v_def)
  have svv: "s * v * v < 1" by (simp add: s_def v_def)
  have n0: "0 < real_of_int n" using assms(2) by linarith
  have l0: "0 < l" using assms(1) by (simp add: l_def)
  have p0: "0 \<le> p" using n0 by (simp add: p_def)
  have "real_of_int n \<le> 2 ^ 30" using assms(3) by (metis of_int_le_iff of_int_numeral of_int_power)
  then have "real_of_int n / 2 ^ 30 \<le> 1" by simp
  moreover have "real i \<le> real_of_int n - 1" using assms(2) by linarith
  moreover have "s * real_of_int n = real_of_int n - real_of_int n / 2 ^ 30"
    by (simp add: s_def algebra_simps)
  ultimately have "real i \<le> s * real_of_int n" by linarith
  then have ps: "p \<le> s" using n0 by (simp add: p_def pos_divide_le_eq)
  from fl_bounds [OF p0] have "fl p \<le> p * v" by (simp add: v_def)
  also have "\<dots> \<le> s * v" using ps v0 by (intro mult_right_mono) simp_all
  finally have P: "fl p \<le> s * v" .
  have P0: "0 \<le> fl p" by (rule fl_nonneg [OF p0])
  then have Pl0: "0 \<le> fl p * l" using l0 by simp
  from fl_bounds [OF Pl0] have "fl (fl p * l) \<le> fl p * l * v" by (simp add: v_def)
  also have "\<dots> \<le> s * v * l * v"
    using P l0 v0 by (intro mult_right_mono) simp_all
  also have "\<dots> = (s * v * v) * l" by simp
  also have "\<dots> < 1 * l" using svv l0 by (intro mult_strict_right_mono)
  finally have lt: "fl (fl p * l) < real_of_int (int (length txt))" by (simp add: l_def)
  have ge: "0 \<le> fl (fl p * l)" by (rule fl_nonneg [OF Pl0])
  from ge have a: "0 \<le> \<lfloor>fl (fl p * l)\<rfloor>" by simp
  from lt have b: "\<lfloor>fl (fl p * l)\<rfloor> < int (length txt)" by (simp only: floor_less_iff)
  from a b show ?thesis by (simp add: charIndex_def Let_def p_def l_def)
qed

lemma charAt_Some:
  assumes "txt \<noteq> []" and "int i < n" and "n \<le> 2 ^ 30"
  shows "\<exists>c. charAt txt (charIndex txt n i) = Some c \<and> c \<in> set txt"
proof -
  from charIndex_range [OF assms]
  have r: "0 \<le> charIndex txt n i" "charIndex txt n i < int (length txt)" by simp_all
  then have "nat (charIndex txt n i) < length txt" by linarith
  then have "txt ! nat (charIndex txt n i) \<in> set txt" by (rule nth_mem)
  with r show ?thesis by (simp add: charAt_def)
qed

lemma fl_half: "fl (1 / 2) = 1 / 2"
  by (subst fl_eq [of "- 1"]) (simp_all add: round_even_def)

lemma fl_1: "fl 1 = 1"
  by (subst fl_eq [of 0]) (simp_all add: round_even_def)

lemma sample_value_Some:
  assumes "charAt txt (charIndex txt n i) = Some c"
  shows "sample_value txt s d n i g =
           (intSample (scale_sample s d (sample_time i)
                         (fst (char_sample c (pitch s) (sample_time i) g))),
            snd (char_sample c (pitch s) (sample_time i) g))"
  using assms by (simp add: sample_value_def Let_def split: prod.splits)

lemma fadeTime_eq: "2 \<le> d \<Longrightarrow> fadeTime d = 1 / 10"
  by (simp add: fadeTime_def min_def)

lemma envelope_range:
  assumes "2 \<le> d" and "0 \<le> t" and "t < real_of_int d"
  shows "0 \<le> envelope d t \<and> envelope d t \<le> 1"
  using assms by (simp add: envelope_def fadeTime_eq)

lemma sample_time_range:
  assumes "int i < sampleRate * d"
  shows "0 \<le> sample_time i \<and> sample_time i < real_of_int d"
proof -
  have "real_of_int (int i) < real_of_int (44100 * d)"
    using assms unfolding sampleRate_def by (simp only: of_int_less_iff)
  then have "real i < 44100 * real_of_int d" by simp
  then show ?thesis by (simp add: sample_time_def sampleRate_def divide_less_eq)
qed

lemma char_sample_bound:
  assumes "rng_ok g"
  shows "\<bar>fst (char_sample c p t g)\<bar> \<le> 1"
proof (cases "c = 0x20")
  case True
  then show ?thesis by (simp add: char_sample_def)
next
  case sp: False
  show ?thesis
  proof (cases "c \<in> set vowels")
    case True
    have "\<bar>sin x * 0.6 + sin y * 0.3 + sin z * 0.1\<bar> \<le> 1" for x y z :: real
    proof -
      have "- 1 \<le> sin x" "sin x \<le> 1" "- 1 \<le> sin y" "sin y \<le> 1" "- 1 \<le> sin z" "sin z \<le> 1"
        by simp_all
      then show ?thesis unfolding abs_le_iff by linarith
    qed
    with sp True show ?thesis by (simp add: char_sample_def Let_def)
  next
    case False
    from assms have u: "0 \<le> g 0" "g 0 < 1" by (simp_all add: rng_ok_def)
    have "\<bar>sin x * 0.7 + (g 0 - 0.5) * 0.3\<bar> \<le> 1" for x :: real
    proof -
      have "- 1 \<le> sin x" "sin x \<le> 1" by simp_all
      with u show ?thesis unfolding abs_le_iff by argo
    qed
    with sp False show ?thesis by (simp add: char_sample_def Let_def Math_random_def)
  qed
qed

lemma rateModulation_range:
  assumes "valid_settings s"
  shows "0 \<le> rateModulation s \<and> rateModulation s \<le> 2.8"
proof -
  from assms have r: "1 / 10 \<le> rate s" "rate s \<le> 10" by (simp_all add: valid_settings_def)
  then show ?thesis unfolding rateModulation_def by argo
qed

lemma scale_sample_bound:
  assumes "valid_settings s" and "0 \<le> e" and "e \<le> 1" and "\<bar>x\<bar> \<le> 1"
  shows "\<bar>x * rateModulation s * (volume s * e * 0.3)\<bar> \<le> (84 / 100) * e"
proof -
  from assms(1) have v: "0 \<le> volume s" "volume s \<le> 1" by (simp_all add: valid_settings_def)
  from rateModulation_range [OF assms(1)] have r: "0 \<le> rateModulation s" "rateModulation s \<le> 2.8"
    by simp_all
  have a: "\<bar>x\<bar> * rateModulation s \<le> 1 * 2.8"
    using assms(4) r by (intro mult_mono) simp_all
  have b: "volume s * e \<le> 1 * e" using v assms(2) by (intro mult_right_mono) simp_all
  have c: "0 \<le> volume s * e" using v assms(2) by simp
  have d: "0 \<le> \<bar>x\<bar> * rateModulation s" using r by simp
  have "(\<bar>x\<bar> * rateModulation s) * (volume s * e) \<le> (1 * 2.8) * (1 * e)"
    by (rule mult_mono [OF a b _ c]) simp
  then have f: "(\<bar>x\<bar> * rateModulation s) * (volume s * e) * 0.3 \<le> (84 / 100) * e" by argo
  have "\<bar>x * rateModulation s * (volume s * e * 0.3)\<bar>
          = \<bar>x\<bar> * \<bar>rateModulation s\<bar> * (\<bar>volume s * e\<bar> * \<bar>0.3\<bar>)"
    by (simp only: abs_mult)
  also have "\<bar>rateModulation s\<bar> = rateModulation s" using r(1) by (rule abs_of_nonneg)
  also have "\<bar>volume s * e\<bar> = volume s * e" using c by (rule abs_of_nonneg)
  also have "\<bar>0.3::real\<bar> = 0.3" by simp
  finally have "\<bar>x * rateModulation s * (volume s * e * 0.3)\<bar>
                  = (\<bar>x\<bar> * rateModulation s) * (volume s * e) * 0.3"
    by (simp only: mult.assoc)
  with f show ?thesis by (simp only:)
qed

lemma intSample_no_clamp:
  assumes "\<bar>y\<bar> \<le> (84 / 100)"
  shows "intSample y = Math_round (y * 32767) \<and> \<bar>Math_round (y * 32767)\<bar> \<le> 27525"
proof -
  from assms have y: "- (84 / 100) \<le> y \<and> y \<le> (84 / 100)" unfolding abs_le_iff by argo
  then have "- 27524 \<le> y * 32767 + 1 / 2 \<and> y * 32767 + 1 / 2 < 27525" by argo
  then have "- 27524 \<le> \<lfloor>y * 32767 + 1 / 2\<rfloor>" "\<lfloor>y * 32767 + 1 / 2\<rfloor> < 27525"
    by (simp_all add: le_floor_iff floor_less_iff)
  then show ?thesis unfolding intSample_def Math_round_def by linarith
qed

lemma valid_extreme: "valid_settings extreme"
  by (simp add: valid_settings_def extreme_def)

lemma duration_hello_extreme: "duration (js ''Hello world'') (rate extreme) = 2"
  by (rule duration_short) (simp_all add: wc_hello extreme_def)

lemma rng_ok_shift: "rng_ok g \<Longrightarrow> rng_ok (\<lambda>x. g (x + k))"
  by (simp add: rng_ok_def)

text \<open>
  C4: for every request that passes validation and every sample index, the 16-bit value read
  back from the container lies in \<open>[-32768, 32767]\<close> and is
  \<open>round(sample * 32767)\<close> clamped to that interval, where \<open>sample\<close> is the scaled
  waveform value of the character at that index (for the state the random source has then);
  the store never wraps. The witness uses rate 10, pitch 2, volume 1.
\<close>

theorem samples_clamped:
  assumes "valid_text txt" and "valid_settings s"
  shows "\<exists>view g'. generateAudioWAV txt s g = Inr (view, g')
           \<and> (\<forall>i. int i < sampleRate * duration txt (rate s) \<longrightarrow>
                 - 32768 \<le> getInt16 view (44 + 2 * i) \<and> getInt16 view (44 + 2 * i) \<le> 32767
                 \<and> (\<exists>c k. charAt txt (charIndex txt (sampleRate * duration txt (rate s)) i) = Some c
                        \<and> getInt16 view (44 + 2 * i)
                            = max (- 32768) (min 32767 (Math_round
                                (scale_sample s (duration txt (rate s)) (sample_time i)
                                   (fst (char_sample c (pitch s) (sample_time i) (\<lambda>x. g (x + k))))
                                 * 32767)))))"
proof -
  let ?d = "duration txt (rate s)"
  let ?n = "sampleRate * ?d"
  from assms(2) have r: "0.1 \<le> rate s" by (simp add: valid_settings_def)
  from generate_ok [OF assms(1) r, of g] obtain view g' where
    g: "generateAudioWAV txt s g = Inr (view, g')"
    and e: "\<forall>m. int m < ?n \<longrightarrow>
              (\<exists>k. getInt16 view (44 + 2 * m) = fst (sample_value txt s ?d ?n m (\<lambda>x. g (x + k))))"
    by blast
  have "- 32768 \<le> getInt16 view (44 + 2 * i) \<and> getInt16 view (44 + 2 * i) \<le> 32767
        \<and> (\<exists>c k. charAt txt (charIndex txt ?n i) = Some c
               \<and> getInt16 view (44 + 2 * i)
                   = max (- 32768) (min 32767 (Math_round
                       (scale_sample s ?d (sample_time i)
                          (fst (char_sample c (pitch s) (sample_time i) (\<lambda>x. g (x + k))))
                        * 32767))))"
    if i: "int i < ?n" for i
  proof -
    from e i obtain k where
      k: "getInt16 view (44 + 2 * i) = fst (sample_value txt s ?d ?n i (\<lambda>x. g (x + k)))" by blast
    from charAt_Some [OF valid_text_nonempty [OF assms(1)] i numSamples_le [OF assms(1) r]] obtain c where
      c: "charAt txt (charIndex txt ?n i) = Some c" by blast
    have v: "getInt16 view (44 + 2 * i)
               = intSample (scale_sample s ?d (sample_time i)
                   (fst (char_sample c (pitch s) (sample_time i) (\<lambda>x. g (x + k)))))"
      unfolding k sample_value_Some [OF c] by simp
    then have "getInt16 view (44 + 2 * i)
               = max (- 32768) (min 32767 (Math_round
                       (scale_sample s ?d (sample_time i)
                          (fst (char_sample c (pitch s) (sample_time i) (\<lambda>x. g (x + k))))
                        * 32767)))"
      by (simp only: intSample_def)
    moreover have "- 32768 \<le> getInt16 view (44 + 2 * i) \<and> getInt16 view (44 + 2 * i) \<le> 32767"
      unfolding v by (rule intSample_range)
    ultimately show ?thesis using c by blast
  qed
  with g show ?thesis by blast
qed

theorem samples_clamped_witness:
  "valid_text (js ''Hello world'') \<and> valid_settings extreme
   \<and> (\<exists>view g'. generateAudioWAV (js ''Hello world'') extreme (constant_rng 0) = Inr (view, g')
          \<and> - 32768 \<le> getInt16 view 44 \<and> getInt16 view 44 \<le> 32767
          \<and> - 32768 \<le> getInt16 view 176442 \<and> getInt16 view 176442 \<le> 32767)"
proof -
  from samples_clamped [OF valid_hello valid_extreme, of "constant_rng 0"] obtain view g' where
    g: "generateAudioWAV (js ''Hello world'') extreme (constant_rng 0) = Inr (view, g')"
    and a: "\<forall>i. int i < sampleRate * 2 \<longrightarrow>
              - 32768 \<le> getInt16 view (44 + 2 * i) \<and> getInt16 view (44 + 2 * i) \<le> 32767"
    unfolding duration_hello_extreme by blast
  from a [rule_format, of 0] a [rule_format, of 88199] g valid_hello valid_extreme
  show ?thesis by (simp add: sampleRate_def)
qed

text \<open>
  C5 as stated (a whitespace character at the sample's text position gives a sample that is
  exactly 0 before envelope and volume) fails: the source tests \<^verbatim>\<open>char === ' '\<close>, so a
  tab takes the consonant branch. For the text tab, "a" the first sample maps to the tab and
  its value before envelope and volume is the noise term, \<open>-3/40\<close> for a draw of
  \<open>1/4\<close>.
\<close>

theorem whitespace_silence_counterexample:
  "valid_text [0x09, 0x61]
   \<and> charAt [0x09, 0x61] (charIndex [0x09, 0x61] (sampleRate * duration [0x09, 0x61] 1) 0) = Some 0x09
   \<and> is_ws 0x09
   \<and> fst (char_sample 0x09 1 (sample_time 0) (constant_rng (1 / 4))) = - 3 / 40"
proof -
  have a: "valid_text [0x09, 0x61]" by (simp add: valid_text_def trim_def is_ws_def)
  have b: "charAt [0x09, 0x61] (charIndex [0x09, 0x61] (sampleRate * duration [0x09, 0x61] 1) 0)
             = Some 0x09"
    by (simp add: charAt_def charIndex_def fl_0)
  have c: "is_ws 0x09" by (simp add: is_ws_def)
  have d: "fst (char_sample 0x09 1 (sample_time 0) (constant_rng (1 / 4))) = - 3 / 40"
    by (simp add: char_sample_def vowels_def js_def sample_time_def Math_random_def
        constant_rng_def)
  from a b c d show ?thesis by blast
qed

text \<open>
  C5, amended: if the character at position \<open>floor((i / numSamples) * textLength)\<close>,
  computed in doubles as the source computes it, is the space character U+0020, the sample
  before envelope and volume is exactly 0 (and so is the value stored, with no random number
  drawn).
\<close>

theorem space_silence:
  assumes "charAt txt (charIndex txt n i) = Some 0x20"
  shows "fst (char_sample (the (charAt txt (charIndex txt n i))) (pitch s) (sample_time i) g) = 0
         \<and> sample_value txt s d n i g = (0, g)"
proof -
  have c: "char_sample 0x20 (pitch s) (sample_time i) g = (0, g)"
    by (simp add: char_sample_def)
  have z: "intSample (scale_sample s d (sample_time i) 0) = 0"
    by (simp add: intSample_def scale_sample_def Math_round_def)
  show ?thesis unfolding sample_value_Some [OF assms] assms using c z by simp
qed

theorem space_silence_witness:
  "charAt (js ''a '') (charIndex (js ''a '') (sampleRate * duration (js ''a '') 1) 44100) = Some 0x20
   \<and> sample_value (js ''a '') neutral (duration (js ''a '') 1) (sampleRate * duration (js ''a '') 1)
         44100 (constant_rng 0) = (0, constant_rng 0)"
proof -
  have w: "wordCount (js ''a '') = 1" by (simp add: js_def wordCount_def is_ws_def)
  have d: "duration (js ''a '') 1 = 2" by (rule duration_short) (simp_all add: w)
  have a: "charAt (js ''a '') (charIndex (js ''a '') (sampleRate * duration (js ''a '') 1) 44100)
             = Some 0x20"
    unfolding d by (simp add: charAt_def charIndex_def sampleRate_def js_def fl_half fl_1)
  from space_silence [OF a, of neutral "constant_rng 0" "duration (js ''a '') 1"] a
  show ?thesis by simp
qed

text \<open>
  The position is the one the source computes, in doubles. For the 49-character text "b ",
  then 47 times "b", sample 1800 of 88200 has \<open>(1800 / 88200) * 49 = 1\<close> in exact
  arithmetic, the position of the space; in doubles the product is \<open>1 - 2 ^ -53\<close> and
  the position is 0, the first "b".
\<close>

lemma charIndex_rounds_down:
  "charIndex (0x62 # 0x20 # replicate 47 0x62) 88200 1800 = 0
   \<and> \<lfloor>(1800 / 88200) * 49 :: real\<rfloor> = 1"
proof -
  have a: "fl (1 / 49) = 5882252574524729 / 2 ^ 58"
    by (subst fl_eq [of "- 6"]) (simp_all add: round_even_def)
  have b: "fl (5882252574524729 / 2 ^ 58 * 49) = 9007199254740991 / 2 ^ 53"
    by (subst fl_eq [of "- 1"]) (simp_all add: round_even_def)
  have e: "real 1800 / real_of_int 88200 = 1 / 49" by simp
  have l: "real (length (0x62 # 0x20 # replicate 47 (0x62::jschar))) = 49" by simp
  have "charIndex (0x62 # 0x20 # replicate 47 0x62) 88200 1800 = \<lfloor>fl (fl (1 / 49) * 49)\<rfloor>"
    by (simp only: charIndex_def Let_def e l)
  then have "charIndex (0x62 # 0x20 # replicate 47 0x62) 88200 1800
               = \<lfloor>9007199254740991 / 2 ^ 53 :: real\<rfloor>"
    unfolding a b .
  then show ?thesis by simp
qed

section \<open>Headroom\<close>

text \<open>
  C10: with the parameters clamped by \<^verbatim>\<open>POST\<close> (rate at most 10, pitch at most 2,
  volume at most 1), the sample before quantisation never exceeds 0.84 in magnitude
  (waveform at most 1, rate modulation at most 2.8, headroom 0.3, volume and envelope at most
  1), whatever character and random draw it comes from; so the clamp in the quantisation step
  leaves \<open>round(sample * 32767)\<close> as it is, and every emitted sample lies within
  \<open>\<plusminus>27525\<close>.
\<close>

theorem amplitude_headroom:
  assumes "body_text body = JString txt" and "valid_text txt" and "rng_ok g"
  shows "(\<forall>i c g0. int i < sampleRate * duration txt (rate (normalized_settings body)) \<and> rng_ok g0 \<longrightarrow>
            (let x = scale_sample (normalized_settings body)
                       (duration txt (rate (normalized_settings body))) (sample_time i)
                       (fst (char_sample c (pitch (normalized_settings body)) (sample_time i) g0))
             in \<bar>x\<bar> \<le> 0.84 \<and> intSample x = Math_round (x * 32767) \<and> \<bar>intSample x\<bar> \<le> 27525))
         \<and> (\<exists>view g'. POST body g = (AudioResponse view, g')
               \<and> (\<forall>i. int i < sampleRate * duration txt (rate (normalized_settings body)) \<longrightarrow>
                     \<bar>getInt16 view (44 + 2 * i)\<bar> \<le> 27525))"
proof -
  let ?s = "normalized_settings body"
  let ?d = "duration txt (rate ?s)"
  let ?n = "sampleRate * ?d"
  have vs: "valid_settings ?s" by (rule normalized_settings_valid)
  then have r: "0.1 \<le> rate ?s" by (simp add: valid_settings_def)
  have d2: "2 \<le> ?d" by (rule duration_ge_2)
  have bound: "\<bar>scale_sample ?s ?d (sample_time i) (fst (char_sample c (pitch ?s) (sample_time i) g0))\<bar>
                 \<le> 84 / 100"
    if i: "int i < ?n" and g0: "rng_ok g0" for i c g0
  proof -
    from sample_time_range [OF i] have t: "0 \<le> sample_time i" "sample_time i < real_of_int ?d"
      by simp_all
    from envelope_range [OF d2 t] have e: "0 \<le> envelope ?d (sample_time i)"
      "envelope ?d (sample_time i) \<le> 1" by simp_all
    from scale_sample_bound [OF vs e char_sample_bound [OF g0]]
    have "\<bar>scale_sample ?s ?d (sample_time i) (fst (char_sample c (pitch ?s) (sample_time i) g0))\<bar>
            \<le> 84 / 100 * envelope ?d (sample_time i)"
      by (simp only: scale_sample_def)
    with e(2) show ?thesis by argo
  qed
  have a: "\<forall>i c g0. int i < ?n \<and> rng_ok g0 \<longrightarrow>
            (let x = scale_sample ?s ?d (sample_time i)
                       (fst (char_sample c (pitch ?s) (sample_time i) g0))
             in \<bar>x\<bar> \<le> 0.84 \<and> intSample x = Math_round (x * 32767) \<and> \<bar>intSample x\<bar> \<le> 27525)"
  proof (intro allI impI)
    fix i c g0 assume h: "int i < ?n \<and> rng_ok g0"
    let ?x = "scale_sample ?s ?d (sample_time i) (fst (char_sample c (pitch ?s) (sample_time i) g0))"
    from h bound have b: "\<bar>?x\<bar> \<le> 84 / 100" by blast
    from intSample_no_clamp [OF b] have "intSample ?x = Math_round (?x * 32767)"
      "\<bar>intSample ?x\<bar> \<le> 27525" by simp_all
    moreover from b have "\<bar>?x\<bar> \<le> 0.84" by simp
    ultimately show "let x = ?x in \<bar>x\<bar> \<le> 0.84 \<and> intSample x = Math_round (x * 32767)
                       \<and> \<bar>intSample x\<bar> \<le> 27525"
      by (simp only: Let_def)
  qed
  from generate_ok [OF assms(2) r, of g] obtain view g' where
    g: "generateAudioWAV txt ?s g = Inr (view, g')"
    and e: "\<forall>m. int m < ?n \<longrightarrow>
              (\<exists>k. getInt16 view (44 + 2 * m) = fst (sample_value txt ?s ?d ?n m (\<lambda>x. g (x + k))))"
    by blast
  have p: "POST body g = (AudioResponse view, g')" by (rule POST_accepts [OF assms(1,2) g])
  have "\<bar>getInt16 view (44 + 2 * i)\<bar> \<le> 27525" if i: "int i < ?n" for i
  proof -
    from e i obtain k where
      k: "getInt16 view (44 + 2 * i) = fst (sample_value txt ?s ?d ?n i (\<lambda>x. g (x + k)))" by blast
    from charAt_Some [OF valid_text_nonempty [OF assms(2)] i numSamples_le [OF assms(2) r]] obtain c where
      c: "charAt txt (charIndex txt ?n i) = Some c" by blast
    have v: "getInt16 view (44 + 2 * i)
               = intSample (scale_sample ?s ?d (sample_time i)
                   (fst (char_sample c (pitch ?s) (sample_time i) (\<lambda>x. g (x + k)))))"
      unfolding k sample_value_Some [OF c] by simp
    from intSample_no_clamp [OF bound [OF i rng_ok_shift [OF assms(3)]]]
    show ?thesis unfolding v by simp
  qed
  with p a show ?thesis by blast
qed

lemma rng_ok_constant: "0 \<le> u \<Longrightarrow> u < 1 \<Longrightarrow> rng_ok (constant_rng u)"
  by (simp add: rng_ok_def constant_rng_def)

theorem amplitude_headroom_witness:
  "body_text extreme_body = JString (js ''Hello world'') \<and> valid_text (js ''Hello world'')
   \<and> rng_ok (constant_rng 0)
   \<and> (\<exists>view g'. POST extreme_body (constant_rng 0) = (AudioResponse view, g')
         \<and> \<bar>getInt16 view 44\<bar> \<le> 27525 \<and> \<bar>getInt16 view 176442\<bar> \<le> 27525)"
proof -
  have b: "body_text extreme_body = JString (js ''Hello world'')" by (simp add: extreme_body_def)
  have r: "rng_ok (constant_rng 0)" by (simp add: rng_ok_constant)
  have "rate (normalized_settings extreme_body) = 10"
    by (simp add: extreme_body_def normalized_settings_def)
  then have d: "duration (js ''Hello world'') (rate (normalized_settings extreme_body)) = 2"
    using duration_short [of 10 "js ''Hello world''"] by (simp add: wc_hello)
  from amplitude_headroom [OF b valid_hello r] obtain view g' where
    p: "POST extreme_body (constant_rng 0) = (AudioResponse view, g')"
    and a: "\<forall>i. int i < sampleRate * 2 \<longrightarrow> \<bar>getInt16 view (44 + 2 * i)\<bar> \<le> 27525"
    unfolding d by blast
  from a [rule_format, of 0] a [rule_format, of 88199] p b valid_hello r
  show ?thesis by (simp add: sampleRate_def)
qed

section \<open>Determinism on vowel texts\<close>

lemma char_sample_vowel:
  assumes "c \<in> set vowels"
  shows "char_sample c p t g = (fst (char_sample c p t g0), g)"
  using assms by (simp add: char_sample_def Let_def)

lemma sample_value_vowels:
  assumes "\<forall>c\<in>set txt. c \<in> set vowels"
  shows "sample_value txt s d n i g = (fst (sample_value txt s d n i g0), g)"
proof (cases "charAt txt (charIndex txt n i)")
  case None
  then show ?thesis by (simp add: sample_value_def)
next
  case (Some c)
  then have "c \<in> set txt" by (auto simp: charAt_def split: if_splits)
  with assms have v: "c \<in> set vowels" by blast
  show ?thesis
    unfolding sample_value_Some [OF Some]
    by (subst char_sample_vowel [OF v, of _ _ g g0])+ simp
qed

lemma sample_loop_vowels:
  assumes "\<forall>c\<in>set txt. c \<in> set vowels" and "int (length view) = 44 + 2 * n"
  shows "\<exists>view'. \<forall>g. sample_loop txt s d n i (view, g) = Inr (view', g)"
  using assms(2)
proof (induction "nat (n - int i)" arbitrary: i view)
  case 0
  then have "\<not> int i < n" by simp
  then have "\<forall>g. sample_loop txt s d n i (view, g) = Inr (view, g)"
    by (subst sample_loop.simps) simp
  then show ?case by blast
next
  case (Suc k)
  then have lt: "int i < n" by linarith
  with Suc.prems have fit: "44 + 2 * i + 2 \<le> length view" by linarith
  let ?v = "fst (sample_value txt s d n i (constant_rng 0))"
  from sample_value_range [of "txt" s d n i "constant_rng 0"]
  have r: "- 32768 \<le> ?v" "?v \<le> 32767" by simp_all
  from setInt16_ok [OF fit r] obtain view1 where
    w: "setInt16 view (44 + 2 * i) ?v = Inr view1" and l1: "length view1 = length view"
    by blast
  have st': "sample_step txt s d n i (view, g) = Inr (view1, g)" for g
  proof -
    have "sample_value txt s d n i g = (?v, g)"
      by (rule sample_value_vowels [OF assms(1)])
    then show ?thesis using w by (simp add: sample_step_def bind_err_def mult.commute)
  qed
  have m1: "k = nat (n - int (Suc i))" using Suc.hyps(2) by linarith
  have len1: "int (length view1) = 44 + 2 * n" using l1 Suc.prems by simp
  from Suc.hyps(1) [OF m1 len1] obtain view' where
    lp: "\<forall>g. sample_loop txt s d n (Suc i) (view1, g) = Inr (view', g)" by blast
  have "sample_loop txt s d n i (view, g) = Inr (view', g)" for g
    using lt st' [of g] lp by (subst sample_loop.simps) (simp add: bind_err_def)
  then show ?case by blast
qed

text \<open>
  C8: for a text made of the vowels \<open>a, e, i, o, u\<close> (either case) and fixed rate, pitch
  and volume, the synthesizer draws no random number and its output does not depend on the
  random source: every run returns the same container, bit for bit, and leaves the random
  source as it found it.
\<close>

theorem vowel_text_deterministic:
  assumes "valid_text txt" and "\<forall>c\<in>set txt. c \<in> set vowels" and "valid_settings s"
  shows "\<exists>view. \<forall>g. generateAudioWAV txt s g = Inr (view, g)"
proof -
  let ?d = "duration txt (rate s)"
  let ?n = "sampleRate * ?d"
  let ?fs = "44 + ?n * numChannels * (bitsPerSample div 8)"
  let ?b = "replicate (nat ?fs) (0::byte)"
  have d2: "2 \<le> ?d" by (rule duration_ge_2)
  have fs: "?fs = 44 + 2 * ?n" by (simp add: numChannels_def bitsPerSample_def)
  have n0: "0 \<le> ?n" using d2 by (simp add: sampleRate_def)
  have fs0: "0 \<le> ?fs" using n0 unfolding fs by linarith
  have "int (length ?b) = ?fs" using fs0 by (simp only: length_replicate int_nat_eq if_True)
  then have lb: "int (length ?b) = 44 + 2 * ?n" unfolding fs .
  then have "44 \<le> length ?b" using n0 by linarith
  from write_header_ok [OF this, of ?fs "?n * numChannels * (bitsPerSample div 8)"]
  obtain view0 where
    h: "write_header ?b ?fs (?n * numChannels * (bitsPerSample div 8)) = Inr view0"
    and l0: "length view0 = length ?b" by blast
  have len0: "int (length view0) = 44 + 2 * ?n" using l0 lb by simp
  from sample_loop_vowels [OF assms(2) len0, of s ?d 0] obtain view where
    lp: "\<forall>g. sample_loop txt s ?d ?n 0 (view0, g) = Inr (view, g)" by blast
  have "generateAudioWAV txt s g = Inr (view, g)" for g
    using h lp by (simp add: generateAudioWAV_def Let_def bind_err_def)
  then show ?thesis by blast
qed

theorem vowel_text_deterministic_witness:
  "valid_text (js ''aaaa'') \<and> set (js ''aaaa'') \<subseteq> set vowels \<and> valid_settings neutral
   \<and> (\<exists>view. \<forall>g. generateAudioWAV (js ''aaaa'') neutral g = Inr (view, g))"
proof -
  have a: "valid_text (js ''aaaa'')" by (simp add: valid_text_def trim_def js_def is_ws_def)
  have b: "\<forall>c\<in>set (js ''aaaa''). c \<in> set vowels" by (simp add: js_def vowels_def)
  then have c: "set (js ''aaaa'') \<subseteq> set vowels" by blast
  from vowel_text_deterministic [OF a b valid_neutral] a c valid_neutral show ?thesis by blast
qed

section \<open>Envelope\<close>

lemma valid_fade_out_settings: "valid_settings fade_out_settings"
  by (simp add: valid_settings_def fade_out_settings_def)

lemma char_sample_consonant:
  assumes "c \<noteq> 0x20" and "c \<notin> set vowels"
  shows "char_sample c p t g =
           (sin (2 * pi * ((baseFreq + real (unat c mod 300)) * (1.5 + p * 0.8)) * t) * 0.7
              + (g 0 - 0.5) * 0.3, \<lambda>n. g (Suc n))"
  using assms by (simp add: char_sample_def Let_def Math_random_def)

lemma fade_out_phase:
  "2 * pi * ((baseFreq + real (unat (0x62::jschar) mod 300)) * (1.5 + pitch fade_out_settings * 0.8))
     * sample_time 88199 = pi / 2 + 2 * real (1000::nat) * pi"
  by (simp add: baseFreq_def fade_out_settings_def sample_time_def sampleRate_def)

lemma sin_fade_out_phase: "sin (pi / 2 + 2 * real (1000::nat) * pi) = 1"
  by (simp only: sin_add sin_2npi cos_2npi sin_pi_half cos_pi_half)

lemma fade_out_wave:
  "fst (char_sample 0x62 (pitch fade_out_settings) (sample_time 88199) (constant_rng (1 / 2))) = 7 / 10"
proof -
  have a: "(0x62::jschar) \<noteq> 0x20" by simp
  have b: "(0x62::jschar) \<notin> set vowels" by (simp add: vowels_def js_def)
  show ?thesis
    unfolding char_sample_consonant [OF a b] fade_out_phase sin_fade_out_phase
    by (simp add: constant_rng_def)
qed

lemma fade_out_value:
  "fst (sample_value (js ''b'') fade_out_settings 2 88200 88199 (constant_rng (1 / 2))) = 4"
proof -
  have c: "charAt (js ''b'') (charIndex (js ''b'') 88200 88199) = Some 0x62"
  proof -
    have "js ''b'' \<noteq> []" "int 88199 < 88200" "(88200::int) \<le> 2 ^ 30" by (simp_all add: js_def)
    from charAt_Some [OF this] show ?thesis by (auto simp: js_def)
  qed
  have e: "envelope 2 (sample_time 88199) = 1 / 4410"
    by (simp add: envelope_def fadeTime_def sample_time_def sampleRate_def)
  have s: "scale_sample fade_out_settings 2 (sample_time 88199) (7 / 10) = 1 / 7500"
    unfolding scale_sample_def e
    by (simp add: rateModulation_def fade_out_settings_def)
  have q: "intSample (1 / 7500) = 4"
    by (simp add: intSample_def Math_round_def)
  show ?thesis unfolding sample_value_Some [OF c] fst_conv fade_out_wave s q ..
qed

lemma constant_rng_shift: "(\<lambda>x. constant_rng u (x + k)) = constant_rng u"
  by (simp add: constant_rng_def)

lemma duration_b: "duration (js ''b'') (rate fade_out_settings) = 2"
proof -
  have "wordCount (js ''b'') = 1" by (simp add: js_def wordCount_def is_ws_def)
  then show ?thesis by (intro duration_short) (simp_all add: fade_out_settings_def)
qed

lemma valid_b: "valid_text (js ''b'')"
  by (simp add: valid_text_def trim_def js_def is_ws_def)

text \<open>
  C9 as stated fails in one clause: the sample nearest \<open>time = duration\<close> is not 0 within
  rounding. The loop stops at \<open>time = duration - 1/44100\<close>, where the envelope is still
  \<open>1/4410\<close>. For the text "b" at rate 10 and volume 1, with the pitch above and a noise
  draw of \<open>1/2\<close>, the last of the 88200 samples is stored as 4.
\<close>

theorem fade_out_counterexample:
  "valid_text (js ''b'') \<and> valid_settings fade_out_settings
   \<and> sampleRate * duration (js ''b'') (rate fade_out_settings) = 88200
   \<and> generateAudioWAV (js ''b'') fade_out_settings (constant_rng (1 / 2)) \<noteq> Inl RangeError
   \<and> getInt16 (fst (projr (generateAudioWAV (js ''b'') fade_out_settings (constant_rng (1 / 2)))))
        (44 + 2 * 88199) = 4"
proof -
  have r: "0.1 \<le> rate fade_out_settings" by (simp add: fade_out_settings_def)
  have n2: "sampleRate * 2 = 88200" by (simp add: sampleRate_def)
  have n: "sampleRate * duration (js ''b'') (rate fade_out_settings) = 88200"
    by (simp add: duration_b sampleRate_def)
  from generate_ok [OF valid_b r, of "constant_rng (1 / 2)"] obtain view g' where
    g: "generateAudioWAV (js ''b'') fade_out_settings (constant_rng (1 / 2)) = Inr (view, g')"
    and e: "\<forall>m. int m < 88200 \<longrightarrow>
              (\<exists>k. getInt16 view (44 + 2 * m)
                     = fst (sample_value (js ''b'') fade_out_settings 2 88200 m (constant_rng (1 / 2))))"
    unfolding duration_b n2 constant_rng_shift by blast
  from e [rule_format, of 88199] have "getInt16 view (44 + 2 * 88199) = 4"
    unfolding fade_out_value by simp
  with g n valid_b valid_fade_out_settings show ?thesis by simp
qed

lemma envelope_last:
  assumes "2 \<le> d"
  shows "envelope d (sample_time (nat (sampleRate * d) - 1)) = 1 / 4410"
proof -
  have "real (nat (sampleRate * d) - 1) = 44100 * real_of_int d - 1"
    using assms by (simp add: sampleRate_def of_nat_diff nat_mult_distrib)
  then have t: "sample_time (nat (sampleRate * d) - 1) = real_of_int d - 1 / 44100"
    by (simp add: sample_time_def sampleRate_def field_simps)
  from assms have d: "2 \<le> real_of_int d" by simp
  show ?thesis unfolding t envelope_def fadeTime_eq [OF assms] using d by simp
qed

lemma last_sample_bound:
  assumes "\<bar>y\<bar> \<le> 84 / 100 * (1 / 4410)"
  shows "\<bar>intSample y\<bar> \<le> 6"
proof -
  from assms have y: "- (84 / 100 * (1 / 4410)) \<le> y \<and> y \<le> 84 / 100 * (1 / 4410)"
    unfolding abs_le_iff by argo
  then have "- 6 \<le> y * 32767 + 1 / 2 \<and> y * 32767 + 1 / 2 < 7" by argo
  then have "- 6 \<le> \<lfloor>y * 32767 + 1 / 2\<rfloor>" "\<lfloor>y * 32767 + 1 / 2\<rfloor> < 7"
    by (simp_all add: le_floor_iff floor_less_iff)
  then show ?thesis unfolding intSample_def Math_round_def by linarith
qed

text \<open>
  C9, amended: for every request that passes validation the envelope is \<open>time / fadeTime\<close>
  on \<open>[0, fadeTime)\<close>, 1 in the middle and \<open>(duration - time) / fadeTime\<close> above
  \<open>duration - fadeTime\<close>, with \<open>fadeTime = min(0.1, duration * 0.05)\<close>; it is strictly
  increasing on the fade-in window and strictly decreasing on the fade-out window; the sample
  emitted at \<open>time = 0\<close> is 0; the last sample, at \<open>time = duration - 1/44100\<close>, has
  envelope \<open>1/4410\<close> and is emitted with magnitude at most 6.
\<close>

theorem envelope_shape:
  assumes "valid_text txt" and "valid_settings s" and "rng_ok g"
  shows "(let d = duration txt (rate s); n = sampleRate * d in
            fadeTime d = min 0.1 (real_of_int d * 0.05)
          \<and> (\<forall>t. 0 \<le> t \<and> t < fadeTime d \<longrightarrow> envelope d t = t / fadeTime d)
          \<and> (\<forall>t. fadeTime d \<le> t \<and> t \<le> real_of_int d - fadeTime d \<longrightarrow> envelope d t = 1)
          \<and> (\<forall>t. real_of_int d - fadeTime d < t \<longrightarrow>
                 envelope d t = (real_of_int d - t) / fadeTime d)
          \<and> (\<forall>t u. 0 \<le> t \<and> t < u \<and> u < fadeTime d \<longrightarrow> envelope d t < envelope d u)
          \<and> (\<forall>t u. real_of_int d - fadeTime d < t \<and> t < u \<longrightarrow> envelope d u < envelope d t)
          \<and> envelope d (sample_time 0) = 0
          \<and> envelope d (sample_time (nat n - 1)) = 1 / 4410
          \<and> (\<exists>view g'. generateAudioWAV txt s g = Inr (view, g')
                \<and> getInt16 view 44 = 0
                \<and> \<bar>getInt16 view (44 + 2 * (nat n - 1))\<bar> \<le> 6))"
proof -
  let ?d = "duration txt (rate s)"
  let ?n = "sampleRate * ?d"
  have d2: "2 \<le> ?d" by (rule duration_ge_2)
  then have dr: "2 \<le> real_of_int ?d" by simp
  have ft: "fadeTime ?d = 1 / 10" by (rule fadeTime_eq [OF d2])
  have p0: "fadeTime ?d = min 0.1 (real_of_int ?d * 0.05)" by (simp add: fadeTime_def)
  have p1: "\<forall>t. 0 \<le> t \<and> t < fadeTime ?d \<longrightarrow> envelope ?d t = t / fadeTime ?d"
    by (simp add: envelope_def)
  have p2: "\<forall>t. fadeTime ?d \<le> t \<and> t \<le> real_of_int ?d - fadeTime ?d \<longrightarrow> envelope ?d t = 1"
    by (simp add: envelope_def)
  have p3: "\<forall>t. real_of_int ?d - fadeTime ?d < t \<longrightarrow>
                 envelope ?d t = (real_of_int ?d - t) / fadeTime ?d"
    unfolding envelope_def ft using dr by auto
  have p4: "\<forall>t u. 0 \<le> t \<and> t < u \<and> u < fadeTime ?d \<longrightarrow> envelope ?d t < envelope ?d u"
    unfolding envelope_def ft by auto
  have p5: "\<forall>t u. real_of_int ?d - fadeTime ?d < t \<and> t < u \<longrightarrow> envelope ?d u < envelope ?d t"
    unfolding envelope_def ft using dr by auto
  have p6: "envelope ?d (sample_time 0) = 0"
    by (simp add: envelope_def ft sample_time_def)
  have p7: "envelope ?d (sample_time (nat ?n - 1)) = 1 / 4410" by (rule envelope_last [OF d2])
  from assms(2) have r: "0.1 \<le> rate s" by (simp add: valid_settings_def)
  from generate_ok [OF assms(1) r, of g] obtain view g' where
    g: "generateAudioWAV txt s g = Inr (view, g')"
    and e: "\<forall>m. int m < ?n \<longrightarrow>
              (\<exists>k. getInt16 view (44 + 2 * m) = fst (sample_value txt s ?d ?n m (\<lambda>x. g (x + k))))"
    by blast
  have n88: "88200 \<le> ?n" using d2 by (simp add: sampleRate_def)
  have val: "\<exists>c k. getInt16 view (44 + 2 * i)
               = intSample (scale_sample s ?d (sample_time i)
                   (fst (char_sample c (pitch s) (sample_time i) (\<lambda>x. g (x + k)))))"
    if i: "int i < ?n" for i
  proof -
    from e i obtain k where
      k: "getInt16 view (44 + 2 * i) = fst (sample_value txt s ?d ?n i (\<lambda>x. g (x + k)))" by blast
    from charAt_Some [OF valid_text_nonempty [OF assms(1)] i numSamples_le [OF assms(1) r]] obtain c where
      c: "charAt txt (charIndex txt ?n i) = Some c" by blast
    have "getInt16 view (44 + 2 * i)
               = intSample (scale_sample s ?d (sample_time i)
                   (fst (char_sample c (pitch s) (sample_time i) (\<lambda>x. g (x + k)))))"
      unfolding k sample_value_Some [OF c] by simp
    then show ?thesis by blast
  qed
  have first: "getInt16 view 44 = 0"
  proof -
    have "int 0 < ?n" using n88 by simp
    from val [OF this] obtain c k where
      "getInt16 view (44 + 2 * 0)
         = intSample (scale_sample s ?d (sample_time 0)
             (fst (char_sample c (pitch s) (sample_time 0) (\<lambda>x. g (x + k)))))" by blast
    then show ?thesis
      unfolding scale_sample_def p6 by (simp add: intSample_def Math_round_def)
  qed
  have last: "\<bar>getInt16 view (44 + 2 * (nat ?n - 1))\<bar> \<le> 6"
  proof -
    have i: "int (nat ?n - 1) < ?n" using n88 by linarith
    from val [OF i] obtain c k where
      v: "getInt16 view (44 + 2 * (nat ?n - 1))
         = intSample (scale_sample s ?d (sample_time (nat ?n - 1))
             (fst (char_sample c (pitch s) (sample_time (nat ?n - 1)) (\<lambda>x. g (x + k)))))"
      by blast
    have e01: "0 \<le> (1 / 4410 :: real)" "(1 / 4410 :: real) \<le> 1" by simp_all
    from scale_sample_bound [OF assms(2) e01 char_sample_bound [OF rng_ok_shift [OF assms(3)]]]
    have "\<bar>scale_sample s ?d (sample_time (nat ?n - 1))
             (fst (char_sample c (pitch s) (sample_time (nat ?n - 1)) (\<lambda>x. g (x + k))))\<bar>
            \<le> 84 / 100 * (1 / 4410)"
      unfolding scale_sample_def p7 .
    from last_sample_bound [OF this] show ?thesis unfolding v .
  qed
  from g first last have p8: "\<exists>view g'. generateAudioWAV txt s g = Inr (view, g')
                \<and> getInt16 view 44 = 0
                \<and> \<bar>getInt16 view (44 + 2 * (nat ?n - 1))\<bar> \<le> 6" by blast
  from p0 p1 p2 p3 p4 p5 p6 p7 p8 show ?thesis by (simp only: Let_def)
qed

theorem envelope_shape_witness:
  "valid_text (js ''Hello world'') \<and> valid_settings neutral \<and> rng_ok (constant_rng 0)
   \<and> fadeTime 2 = 1 / 10
   \<and> envelope 2 (1 / 20) = 1 / 2 \<and> envelope 2 1 = 1 \<and> envelope 2 (39 / 20) = 1 / 2
   \<and> (\<exists>view g'. generateAudioWAV (js ''Hello world'') neutral (constant_rng 0) = Inr (view, g')
          \<and> getInt16 view 44 = 0 \<and> \<bar>getInt16 view 176442\<bar> \<le> 6)"
proof -
  have r: "rng_ok (constant_rng 0)" by (simp add: rng_ok_constant)
  have d: "duration (js ''Hello world'') (rate neutral) = 2"
    by (simp add: neutral_def duration_hello)
  have n: "44 + 2 * (nat (sampleRate * 2) - 1) = 176442" by (simp add: sampleRate_def)
  have f: "fadeTime 2 = 1 / 10" by (simp add: fadeTime_def)
  from envelope_shape [OF valid_hello valid_neutral r]
  have a: "(\<forall>t. 0 \<le> t \<and> t < fadeTime 2 \<longrightarrow> envelope 2 t = t / fadeTime 2)"
    and b: "(\<forall>t. fadeTime 2 \<le> t \<and> t \<le> real_of_int 2 - fadeTime 2 \<longrightarrow> envelope 2 t = 1)"
    and c: "(\<forall>t. real_of_int 2 - fadeTime 2 < t \<longrightarrow> envelope 2 t = (real_of_int 2 - t) / fadeTime 2)"
    and e: "\<exists>view g'. generateAudioWAV (js ''Hello world'') neutral (constant_rng 0) = Inr (view, g')
          \<and> getInt16 view 44 = 0 \<and> \<bar>getInt16 view 176442\<bar> \<le> 6"
    unfolding d Let_def n by blast+
  from a [rule_format, of "1 / 20"] have a': "envelope 2 (1 / 20) = 1 / 2" unfolding f by simp
  from b [rule_format, of 1] have b': "envelope 2 1 = 1" unfolding f by simp
  from c [rule_format, of "39 / 20"] have c': "envelope 2 (39 / 20) = 1 / 2" unfolding f by simp
  from valid_hello valid_neutral r f a' b' c' e show ?thesis by blast
qed

end
